theory Spec2Isabelle
  imports Main "HOL-Library.Sublist"
begin

section \<open>Text: code points, case, whitespace, substrings\<close>

text \<open>
  The agent of \<^verbatim>\<open>src/src/sql_agent.py\<close> handles Python \<^verbatim>\<open>str\<close> values: sequences of
  Unicode code points. A \<open>str\<close> is a list of code points, each the integer that
  \<^verbatim>\<open>ord\<close> gives. \<open>lit\<close> turns a literal of the source into one.
\<close>

type_synonym codepoint = int

type_synonym str = "codepoint list"

definition lit :: "string \<Rightarrow> str" where
  "lit s = map of_char s"

text \<open>
  Four things the code takes from the Python runtime and its Unicode tables, not
  from the repository: \<^verbatim>\<open>str.upper\<close> (which may change the length of a text), the
  class \<^verbatim>\<open>\w\<close> that decides where \<^verbatim>\<open>\b\<close> holds, the whitespace that \<^verbatim>\<open>str.strip\<close> and
  \<^verbatim>\<open>\s\<close> share, and which characters a literal character of a pattern matches
  under \<^verbatim>\<open>re.IGNORECASE\<close> (\<open>ignorecase u p c\<close>: the pattern's \<open>p\<close> matches the text's
  \<open>c\<close>). They are a parameter \<open>u\<close> of everything below; what a proof needs to know
  about them is a hypothesis of its theorem.
\<close>

record unicode_db =
  str_upper :: "str \<Rightarrow> str"
  word_char :: "codepoint \<Rightarrow> bool"
  space_char :: "codepoint \<Rightarrow> bool"
  ignorecase :: "codepoint \<Rightarrow> codepoint \<Rightarrow> bool"

text \<open>\<^verbatim>\<open>str.strip()\<close>\<close>

definition strip :: "unicode_db \<Rightarrow> str \<Rightarrow> str" where
  "strip u s = rev (dropWhile (space_char u) (rev (dropWhile (space_char u) s)))"

text \<open>
  \<^verbatim>\<open>s.split(sep)[0]\<close> together with the test \<^verbatim>\<open>sep in s\<close>: the text before the
  first occurrence of \<open>sep\<close>, or \<open>None\<close> when \<open>sep\<close> does not occur.
\<close>

fun before_first :: "str \<Rightarrow> str \<Rightarrow> str option" where
  "before_first sep [] = (if sep = [] then Some [] else None)"
| "before_first sep (c # cs) =
     (if prefix sep (c # cs) then Some []
      else map_option ((#) c) (before_first sep cs))"

text \<open>\<^verbatim>\<open>sub in s\<close>\<close>

definition contains :: "str \<Rightarrow> str \<Rightarrow> bool" where
  "contains sub s = (before_first sub s \<noteq> None)"

text \<open>\<^verbatim>\<open>str(n)\<close> for an integer: decimal digits, with a minus sign when negative.\<close>

definition digit_char :: "nat \<Rightarrow> codepoint" where
  "digit_char d = 48 + int d"

function str_nat :: "nat \<Rightarrow> str" where
  "str_nat n = (if n < 10 then [digit_char n] else str_nat (n div 10) @ [digit_char (n mod 10)])"
  by pat_completeness auto
termination
  by (relation "measure id") auto

definition str_int :: "int \<Rightarrow> str" where
  "str_int i = (if i < 0 then 45 # str_nat (nat (- i)) else str_nat (nat i))"

section \<open>Errors\<close>

text \<open>
  The two exception classes the agent distinguishes: its own \<^verbatim>\<open>SafetyViolationError\<close>
  and every other \<^verbatim>\<open>Exception\<close>. Each carries the text that \<^verbatim>\<open>str(e)\<close> returns.
\<close>

datatype error = SafetyViolationError str | Exception str

section \<open>The safety validator\<close>

definition DESTRUCTIVE_KEYWORDS :: "str list" where
  "DESTRUCTIVE_KEYWORDS =
     [lit ''DROP'', lit ''DELETE'', lit ''UPDATE'', lit ''TRUNCATE'', lit ''ALTER'',
      lit ''INSERT'', lit ''CREATE'', lit ''GRANT'', lit ''REVOKE'', lit ''EXEC'',
      lit ''EXECUTE'']"

text \<open>
  \<^verbatim>\<open>\b\<close> holds between two neighbouring positions when exactly one of them is a
  word character; the outside of the text counts as a non-word character. The
  arguments say whether the character before and the character after the
  position are word characters.
\<close>

definition word_boundary :: "bool \<Rightarrow> bool \<Rightarrow> bool" where
  "word_boundary left right = (left \<noteq> right)"

definition starts_with_word_char :: "unicode_db \<Rightarrow> str \<Rightarrow> bool" where
  "starts_with_word_char u s = (case s of [] \<Rightarrow> False | c # _ \<Rightarrow> word_char u c)"

text \<open>
  The pattern \<^verbatim>\<open>\b keyword \b\<close> tried at one position: \<open>prev\<close> says whether the
  character before the position is a word character, \<open>s\<close> is the text from the
  position on.
\<close>

definition match_here :: "unicode_db \<Rightarrow> str \<Rightarrow> bool \<Rightarrow> str \<Rightarrow> bool" where
  "match_here u keyword prev s =
     (word_boundary prev (starts_with_word_char u s) \<and>
      prefix keyword s \<and>
      word_boundary (if keyword = [] then prev else word_char u (last keyword))
                    (starts_with_word_char u (drop (length keyword) s)))"

text \<open>
  \<^verbatim>\<open>re.search(r'\b' + keyword + r'\b', text)\<close> as a truth value: the pattern is
  tried at every position, left to right.
\<close>

fun search_from :: "unicode_db \<Rightarrow> str \<Rightarrow> bool \<Rightarrow> str \<Rightarrow> bool" where
  "search_from u keyword prev [] = match_here u keyword prev []"
| "search_from u keyword prev (c # cs) =
     (match_here u keyword prev (c # cs) \<or> search_from u keyword (word_char u c) cs)"

definition re_search :: "unicode_db \<Rightarrow> str \<Rightarrow> str \<Rightarrow> bool" where
  "re_search u keyword t = search_from u keyword False t"

text \<open>The text of the exception; its first character is U+1F6AB.\<close>

definition violation_message :: "str \<Rightarrow> str" where
  "violation_message keyword =
     [0x1F6AB] @
     lit '' SAFETY VIOLATION: Query contains destructive keyword '' @ [0x27] @ keyword @
     [0x27] @ lit ''. '' @
     lit ''This agent is read-only and cannot execute write operations.''"

text \<open>
  The loop of \<^verbatim>\<open>validate_sql_safety\<close> over the keywords, in their order: the first
  keyword found raises, and the keywords after it are not looked at.
\<close>

fun validate_keywords :: "unicode_db \<Rightarrow> str list \<Rightarrow> str \<Rightarrow> error + bool" where
  "validate_keywords u [] sql_upper = Inr True"
| "validate_keywords u (keyword # rest) sql_upper =
     (if re_search u keyword sql_upper
      then Inl (SafetyViolationError (violation_message keyword))
      else validate_keywords u rest sql_upper)"

definition validate_sql_safety :: "unicode_db \<Rightarrow> str \<Rightarrow> error + bool" where
  "validate_sql_safety u sql = validate_keywords u DESTRUCTIVE_KEYWORDS (str_upper u sql)"

section \<open>Extracting the query from the backend's answer\<close>

definition fence :: str where
  "fence = [0x60, 0x60, 0x60]"

definition sql_tag :: str where
  "sql_tag = lit ''sql''"

text \<open>
  The pattern of \<^verbatim>\<open>_extract_sql\<close>, an opening fence, \<^verbatim>\<open>(?:sql)?\<close>, \<^verbatim>\<open>\s*\<close>,
  the group \<^verbatim>\<open>(.*?)\<close>, \<^verbatim>\<open>\s*\<close> and a closing fence, under DOTALL and
  IGNORECASE, is matched the way a backtracking matcher does it: each function
  below is one piece of the pattern followed by the rest of the pattern, the
  alternatives tried in the matcher's order.

  \<open>ws_then_fence\<close> is the end of the pattern, \<^verbatim>\<open>\s*\<close> and the closing fence:
  whitespace is consumed greedily and given back when the fence does not follow.
\<close>

fun ws_then_fence :: "unicode_db \<Rightarrow> str \<Rightarrow> bool" where
  "ws_then_fence u [] = prefix fence []"
| "ws_then_fence u (c # cs) =
     ((space_char u c \<and> ws_then_fence u cs) \<or> prefix fence (c # cs))"

text \<open>
  The lazy group \<^verbatim>\<open>(.*?)\<close> and what follows it: the shortest capture after which
  the end of the pattern matches. The dot matches every character (DOTALL).
\<close>

fun lazy_group :: "unicode_db \<Rightarrow> str \<Rightarrow> str \<Rightarrow> str option" where
  "lazy_group u captured [] = (if ws_then_fence u [] then Some captured else None)"
| "lazy_group u captured (c # cs) =
     (if ws_then_fence u (c # cs) then Some captured else lazy_group u (captured @ [c]) cs)"

text \<open>The greedy \<^verbatim>\<open>\s*\<close> in front of the group, and what follows it.\<close>

fun ws_then_group :: "unicode_db \<Rightarrow> str \<Rightarrow> str option" where
  "ws_then_group u [] = lazy_group u [] []"
| "ws_then_group u (c # cs) =
     (case (if space_char u c then ws_then_group u cs else None) of
        Some g \<Rightarrow> Some g
      | None \<Rightarrow> lazy_group u [] (c # cs))"

text \<open>
  Whether the text starts with the three characters of the tag, each matched
  under IGNORECASE.
\<close>

definition matches_tag :: "unicode_db \<Rightarrow> str \<Rightarrow> bool" where
  "matches_tag u s = list_all2 (ignorecase u) sql_tag (take 3 s)"

text \<open>
  The optional tag \<^verbatim>\<open>(?:sql)?\<close> and what follows it: the tag is taken when it is
  there, and given back when the rest does not match.
\<close>

definition tag_then_rest :: "unicode_db \<Rightarrow> str \<Rightarrow> str option" where
  "tag_then_rest u s =
     (case (if matches_tag u s then ws_then_group u (drop 3 s) else None) of
        Some g \<Rightarrow> Some g
      | None \<Rightarrow> ws_then_group u s)"

text \<open>The whole pattern tried at one position; the result is the text of the group.\<close>

definition match_block :: "unicode_db \<Rightarrow> str \<Rightarrow> str option" where
  "match_block u s = (if prefix fence s then tag_then_rest u (drop 3 s) else None)"

text \<open>
  \<^verbatim>\<open>re.findall(code_block_pattern, sql, ...)\<close>, as far as the code uses it: \<open>None\<close>
  when the list of matches is empty, and otherwise \<^verbatim>\<open>matches[0]\<close>, the group of the
  leftmost match.
\<close>

fun first_code_block :: "unicode_db \<Rightarrow> str \<Rightarrow> str option" where
  "first_code_block u [] = match_block u []"
| "first_code_block u (c # cs) =
     (case match_block u (c # cs) of Some g \<Rightarrow> Some g | None \<Rightarrow> first_code_block u cs)"

definition explanation_separators :: "str list" where
  "explanation_separators =
     [lit ''\<newline>\<newline>This query'', lit ''\<newline>\<newline>Explanation'', lit ''\<newline>\<newline>Note:'']"

text \<open>The \<^verbatim>\<open>for separator in [...]\<close> loop of \<^verbatim>\<open>_extract_sql\<close>.\<close>

fun cut_separators :: "unicode_db \<Rightarrow> str list \<Rightarrow> str \<Rightarrow> str" where
  "cut_separators u [] sql = sql"
| "cut_separators u (separator # rest) sql =
     cut_separators u rest
       (case before_first separator sql of Some head \<Rightarrow> strip u head | None \<Rightarrow> sql)"

text \<open>\<^verbatim>\<open>_extract_sql\<close>\<close>

definition extract_sql :: "unicode_db \<Rightarrow> str \<Rightarrow> str" where
  "extract_sql u response_text =
     (let sql = strip u response_text;
          sql = (case first_code_block u sql of Some g \<Rightarrow> strip u g | None \<Rightarrow> sql);
          sql = strip u sql
      in cut_separators u explanation_separators sql)"

section \<open>The agent and its collaborators\<close>

text \<open>
  The fields of \<^verbatim>\<open>SQLAgent\<close> that hold data. \<open>schema_context\<close> is \<open>None\<close> until
  \<^verbatim>\<open>load_schema_context\<close> has run.
\<close>

record agent =
  base_url :: str
  model_name :: str
  schema_context :: "str option"

definition load_schema_context :: "agent \<Rightarrow> str \<Rightarrow> agent" where
  "load_schema_context self schema_summary = self\<lparr>schema_context := Some schema_summary\<rparr>"

text \<open>
  The two collaborators are outside the repository's control: the Ollama client
  behind \<^verbatim>\<open>self.client.chat\<close> and the database behind \<^verbatim>\<open>pd.read_sql\<close>. Each is a
  function of the ordinal of the attempt that calls it and of the text it is
  given, so that the same text may be answered differently by a later call. A result
  \<open>Inl msg\<close> is an exception whose \<^verbatim>\<open>str\<close> is \<open>msg\<close>; \<open>Inr\<close> is a normal return:
  the content of the reply, or the data frame. Both functions are total: a call
  that never returns is not modelled.
\<close>

record 'df world =
  chat :: "int \<Rightarrow> str \<Rightarrow> str + str"
  read_sql :: "int \<Rightarrow> str \<Rightarrow> str + 'df"

text \<open>
  \<^verbatim>\<open>DatabaseManager.execute_query\<close> of \<^verbatim>\<open>src/src/db_manager.py\<close>: a failure of the
  database is raised again as an \<^verbatim>\<open>Exception\<close> whose text is \<open>sql_error\<close> of the
  database's own message.
\<close>

definition sql_error :: "str \<Rightarrow> str" where
  "sql_error error_msg = lit ''SQL Error: '' @ error_msg"

definition execute_query :: "(str \<Rightarrow> str + 'df) \<Rightarrow> str \<Rightarrow> error + 'df" where
  "execute_query run_sql sql =
     (case run_sql sql of
        Inr df \<Rightarrow> Inr df
      | Inl error_msg \<Rightarrow> Inl (Exception (sql_error error_msg)))"

section \<open>Prompts\<close>

text \<open>How an f-string renders a value that may be \<^verbatim>\<open>None\<close>.\<close>

definition fmt :: "str option \<Rightarrow> str" where
  "fmt v = (case v of None \<Rightarrow> (lit ''None'') | Some s \<Rightarrow> s)"

definition build_initial_prompt :: "agent \<Rightarrow> str \<Rightarrow> str" where
  "build_initial_prompt self user_query =
     lit ''Given the database schema below, write a SQL Server query to answer the user'' @
       [0x27] @ lit ''s question.\<newline>'' @
     lit ''\<newline>'' @
     lit ''DATABASE SCHEMA:\<newline>'' @
     fmt (schema_context self) @ lit ''\<newline>'' @
     lit ''\<newline>'' @
     lit ''USER QUESTION:\<newline>'' @
     user_query @ lit ''\<newline>'' @
     lit ''\<newline>'' @
     lit ''RULES:\<newline>'' @
     lit ''- Return ONLY the SQL query, no explanations\<newline>'' @
     lit ''- Use proper SQL Server T-SQL syntax\<newline>'' @
     lit ''- Use TOP instead of LIMIT for row limiting\<newline>'' @
     lit ''- Always use table aliases for clarity\<newline>'' @
     lit ''- Use square brackets for table/column names with spaces\<newline>'' @
     lit ''- Return only SELECT queries (no INSERT, UPDATE, DELETE, DROP, etc.)\<newline>'' @
     lit ''- Include appropriate WHERE, JOIN, GROUP BY, ORDER BY clauses as needed\<newline>'' @
     lit ''\<newline>'' @
     lit ''SQL Query:''"

definition build_healing_prompt :: "agent \<Rightarrow> str \<Rightarrow> str \<Rightarrow> str \<Rightarrow> str" where
  "build_healing_prompt self user_query previous_sql error_message =
     lit ''The previous SQL query failed. Please fix it based on the error message.\<newline>'' @
     lit ''\<newline>'' @
     lit ''DATABASE SCHEMA:\<newline>'' @
     fmt (schema_context self) @ lit ''\<newline>'' @
     lit ''\<newline>'' @
     lit ''ORIGINAL USER QUESTION:\<newline>'' @
     user_query @ lit ''\<newline>'' @
     lit ''\<newline>'' @
     lit ''PREVIOUS SQL QUERY (FAILED):\<newline>'' @
     previous_sql @ lit ''\<newline>'' @
     lit ''\<newline>'' @
     lit ''ERROR MESSAGE:\<newline>'' @
     error_message @ lit ''\<newline>'' @
     lit ''\<newline>'' @
     lit ''Please generate a corrected SQL query that fixes this error. '' @
       lit ''Return ONLY the corrected SQL query.\<newline>'' @
     lit ''\<newline>'' @
     lit ''Corrected SQL Query:''"

text \<open>
  The choice of prompt in \<^verbatim>\<open>generate_safe_sql\<close>. The test
  \<^verbatim>\<open>previous_sql and error_message\<close> is Python's truth test: \<^verbatim>\<open>None\<close> and the empty
  text both fail it.
\<close>

definition build_prompt :: "agent \<Rightarrow> str \<Rightarrow> str option \<Rightarrow> str option \<Rightarrow> str" where
  "build_prompt self user_query previous_sql error_message =
     (case (previous_sql, error_message) of
        (Some p, Some e) \<Rightarrow>
          if p \<noteq> [] \<and> e \<noteq> [] then build_healing_prompt self user_query p e
          else build_initial_prompt self user_query
      | _ \<Rightarrow> build_initial_prompt self user_query)"

text \<open>
  \<^verbatim>\<open>generate_safe_sql\<close>: \<open>ask\<close> is the backend call of this attempt. An exception of
  the call is raised again as it is.
\<close>

definition generate_safe_sql ::
  "unicode_db \<Rightarrow> agent \<Rightarrow> (str \<Rightarrow> str + str) \<Rightarrow> str \<Rightarrow> str option \<Rightarrow> str option
     \<Rightarrow> error + str" where
  "generate_safe_sql u self ask user_query previous_sql error_message =
     (case ask (build_prompt self user_query previous_sql error_message) of
        Inl msg \<Rightarrow> Inl (Exception msg)
      | Inr content \<Rightarrow> Inr (extract_sql u content))"

section \<open>The retry loop\<close>

text \<open>
  A record of the calls a run makes to its collaborators, in order: the prompt
  sent to the backend, or the query text sent to the database, with the ordinal
  of the attempt. The code keeps no such record; it is here so that properties of
  the calls can be stated.
\<close>

datatype call = Generate int str | Execute int str

fun is_Generate :: "call \<Rightarrow> bool" where
  "is_Generate (Generate _ _) = True"
| "is_Generate (Execute _ _) = False"

fun is_Execute :: "call \<Rightarrow> bool" where
  "is_Execute (Execute _ _) = True"
| "is_Execute (Generate _ _) = False"

definition generator_calls :: "call list \<Rightarrow> nat" where
  "generator_calls cs = length (filter is_Generate cs)"

definition executor_calls :: "call list \<Rightarrow> nat" where
  "executor_calls cs = length (filter is_Execute cs)"

text \<open>
  The local variables of \<^verbatim>\<open>execute_with_retry\<close> that live across iterations.
  \<open>sql\<close> is \<open>None\<close> while the name is unbound, which is what
  \<^verbatim>\<open>'sql' in locals()\<close> tests.
\<close>

record locals =
  previous_sql :: "str option"
  error_message :: "str option"
  sql :: "str option"
  calls :: "call list"

text \<open>
  What \<^verbatim>\<open>execute_with_retry\<close> gives its caller: \<open>Inl e\<close> when it raises \<open>e\<close>,
  \<open>Inr (Some (df, sql))\<close> when it returns the pair, \<open>Inr None\<close> when the loop ends
  without a \<^verbatim>\<open>return\<close> and Python returns \<^verbatim>\<open>None\<close>.
\<close>

type_synonym 'df outcome = "error + ('df \<times> str) option"

text \<open>
  The body of the \<^verbatim>\<open>try\<close> block of one attempt: generate, validate, execute.
  The result is the exception that leaves the block, or the pair to return; the
  locals are returned as they are when the block is left.
\<close>

definition try_block ::
  "unicode_db \<Rightarrow> agent \<Rightarrow> 'df world \<Rightarrow> str \<Rightarrow> int \<Rightarrow> locals \<Rightarrow>
     (error + 'df \<times> str) \<times> locals" where
  "try_block u self w user_query attempt l =
     (let prompt = build_prompt self user_query (previous_sql l) (error_message l);
          l = l\<lparr>calls := calls l @ [Generate attempt prompt]\<rparr>
      in case generate_safe_sql u self (chat w attempt) user_query
                (previous_sql l) (error_message l) of
           Inl e \<Rightarrow> (Inl e, l)
         | Inr generated \<Rightarrow>
             (let l = l\<lparr>sql := Some generated\<rparr>
              in case validate_sql_safety u generated of
                   Inl e \<Rightarrow> (Inl e, l)
                 | Inr _ \<Rightarrow>
                     (let l = l\<lparr>calls := calls l @ [Execute attempt generated]\<rparr>
                      in case execute_query (read_sql w attempt) generated of
                           Inl e \<Rightarrow> (Inl e, l)
                         | Inr df \<Rightarrow> (Inr (df, generated), l))))"

definition exhausted_message :: "int \<Rightarrow> str \<Rightarrow> str" where
  "exhausted_message max_retries msg =
     lit ''Failed after '' @ str_int max_retries @ lit '' attempts. Last error: '' @ msg"

text \<open>
  The \<^verbatim>\<open>for attempt in range(1, max_retries + 1)\<close> loop, from the iteration
  \<open>attempt\<close> on. A \<^verbatim>\<open>SafetyViolationError\<close> is raised again; any other exception is
  recorded in the locals and, on the last attempt, replaced by the final one.
\<close>

function retry_loop ::
  "unicode_db \<Rightarrow> agent \<Rightarrow> 'df world \<Rightarrow> str \<Rightarrow> int \<Rightarrow> int \<Rightarrow> locals \<Rightarrow>
     'df outcome \<times> call list" where
  "retry_loop u self w user_query max_retries attempt l =
     (if max_retries < attempt then (Inr None, calls l)
      else
        case try_block u self w user_query attempt l of
          (Inr (df, generated), l) \<Rightarrow> (Inr (Some (df, generated)), calls l)
        | (Inl (SafetyViolationError msg), l) \<Rightarrow> (Inl (SafetyViolationError msg), calls l)
        | (Inl (Exception msg), l) \<Rightarrow>
            (let l = l\<lparr>error_message := Some msg, previous_sql := sql l\<rparr>
             in if attempt = max_retries
                then (Inl (Exception (exhausted_message max_retries msg)), calls l)
                else retry_loop u self w user_query max_retries (attempt + 1) l))"
  by pat_completeness auto
termination
  by (relation "measure (\<lambda>(u, self, w, user_query, max_retries, attempt, l).
                  nat (max_retries + 1 - attempt))") auto

text \<open>\<^verbatim>\<open>execute_with_retry\<close>, with the record of the calls it made.\<close>

definition execute_with_retry ::
  "unicode_db \<Rightarrow> agent \<Rightarrow> 'df world \<Rightarrow> str \<Rightarrow> int \<Rightarrow> 'df outcome \<times> call list" where
  "execute_with_retry u self w user_query max_retries =
     retry_loop u self w user_query max_retries 1
       \<lparr>previous_sql = None, error_message = None, sql = None, calls = []\<rparr>"

text \<open>
  The ways a run with at least one attempt can end: the pair is returned, the
  safety violation is raised, or the final exception after \<open>N\<close> failed attempts.
\<close>

definition terminal :: "int \<Rightarrow> 'df outcome \<Rightarrow> bool" where
  "terminal N r =
     ((\<exists>df s. r = Inr (Some (df, s))) \<or>
      (\<exists>m. r = Inl (SafetyViolationError m)) \<or>
      (\<exists>m. r = Inl (Exception (exhausted_message N m))))"

text \<open>
  Whether a recorded call is a generator call that the backend answered with an
  exception, and how many such calls a record holds.
\<close>

fun generation_failed :: "'df world \<Rightarrow> call \<Rightarrow> bool" where
  "generation_failed w (Generate k p) = isl (chat w k p)"
| "generation_failed w (Execute k s) = False"

definition generation_failures :: "'df world \<Rightarrow> call list \<Rightarrow> nat" where
  "generation_failures w cs = length (filter (generation_failed w) cs)"

text \<open>
  The locals with which the loop, started at attempt \<open>a\<close> with the locals \<open>l\<close>,
  enters attempt \<open>k\<close>: it gets there when each of the attempts \<open>a\<close> to \<open>k - 1\<close> ends
  with an exception that is retried. \<open>None\<close> when the loop is left before.
\<close>

function locals_at ::
  "unicode_db \<Rightarrow> agent \<Rightarrow> 'df world \<Rightarrow> str \<Rightarrow> int \<Rightarrow> int \<Rightarrow> locals \<Rightarrow> locals option" where
  "locals_at u self w user_query k a l =
     (if k < a then None
      else if k = a then Some l
      else
        case try_block u self w user_query a l of
          (Inl (Exception msg), l) \<Rightarrow>
            locals_at u self w user_query k (a + 1)
              (l\<lparr>error_message := Some msg, previous_sql := sql l\<rparr>)
        | (Inl (SafetyViolationError msg), l) \<Rightarrow> None
        | (Inr r, l) \<Rightarrow> None)"
  by pat_completeness auto
termination
  by (relation "measure (\<lambda>(u, self, w, user_query, k, a, l). nat (k - a))") auto

section \<open>What the validator is meant to block\<close>

text \<open>
  A whole-word match of a keyword, kept apart from the code above, in two
  readings. In the first the comparison is made on the uppercased text: a
  keyword occurs in a text when some stretch of the uppercased text is the
  keyword and is delimited on both sides, by the end of the text or by a
  character that is not a word character. \<open>occurs_at\<close> says so of the stretch that
  starts at offset \<open>i\<close> of the uppercased text \<open>t\<close>.
\<close>

definition occurs_at :: "unicode_db \<Rightarrow> str \<Rightarrow> str \<Rightarrow> nat \<Rightarrow> bool" where
  "occurs_at u keyword t i =
     (i + length keyword \<le> length t \<and>
      take (length keyword) (drop i t) = keyword \<and>
      (i = 0 \<or> \<not> word_char u (t ! (i - 1))) \<and>
      (i + length keyword = length t \<or> \<not> word_char u (t ! (i + length keyword))))"

definition keyword_occurs :: "unicode_db \<Rightarrow> str \<Rightarrow> str \<Rightarrow> bool" where
  "keyword_occurs u keyword query =
     (\<exists>i\<in>{..length (str_upper u query)}. occurs_at u keyword (str_upper u query) i)"

definition contains_blocked_keyword :: "unicode_db \<Rightarrow> str \<Rightarrow> bool" where
  "contains_blocked_keyword u query =
     (\<exists>keyword\<in>set DESTRUCTIVE_KEYWORDS. keyword_occurs u keyword query)"

text \<open>
  In the second reading the match is looked for in the text itself, case
  ignored: a stretch of the text, \<open>n\<close> characters from offset \<open>i\<close>, whose uppercase
  is the keyword and that is delimited in the text.
\<close>

definition match_in_text :: "unicode_db \<Rightarrow> str \<Rightarrow> str \<Rightarrow> nat \<Rightarrow> nat \<Rightarrow> bool" where
  "match_in_text u keyword query i n =
     (i + n \<le> length query \<and>
      str_upper u (take n (drop i query)) = keyword \<and>
      (i = 0 \<or> \<not> word_char u (query ! (i - 1))) \<and>
      (i + n = length query \<or> \<not> word_char u (query ! (i + n))))"

definition whole_word_match :: "unicode_db \<Rightarrow> str \<Rightarrow> str \<Rightarrow> bool" where
  "whole_word_match u keyword query =
     (\<exists>i\<in>{..length query}. \<exists>n\<in>{..length query}. match_in_text u keyword query i n)"

definition text_has_blocked_keyword :: "unicode_db \<Rightarrow> str \<Rightarrow> bool" where
  "text_has_blocked_keyword u query =
     (\<exists>keyword\<in>set DESTRUCTIVE_KEYWORDS. whole_word_match u keyword query)"

text \<open>
  The two readings agree on a text that uppercasing leaves in place: the
  uppercased text has the length of the text, each of its characters is a word
  character exactly when the character it comes from is one, and the uppercase of
  a stretch of the text is the same stretch of the uppercased text. Every text of
  ASCII characters is such a text.
\<close>

definition upper_in_place :: "unicode_db \<Rightarrow> str \<Rightarrow> bool" where
  "upper_in_place u query =
     (length (str_upper u query) = length query \<and>
      (\<forall>i\<in>{..<length query}.
         word_char u (str_upper u query ! i) = word_char u (query ! i)) \<and>
      (\<forall>i\<in>{..length query}. \<forall>n\<in>{..length query}.
         i + n \<le> length query \<longrightarrow>
         str_upper u (take n (drop i query)) = take n (drop i (str_upper u query))))"

text \<open>
  What the proofs about the validator take from the tables: the letters of the
  keywords, \<^verbatim>\<open>A\<close> to \<^verbatim>\<open>Z\<close>, are word characters.
\<close>

definition keyword_letters :: "unicode_db \<Rightarrow> bool" where
  "keyword_letters u = (\<forall>kw\<in>set DESTRUCTIVE_KEYWORDS. \<forall>c\<in>set kw. word_char u c)"

text \<open>
  What \<open>search_from\<close> looks for at offset \<open>i\<close> of the text it is given, for a
  keyword made of word characters; used in the proofs only.
\<close>

definition found_at :: "unicode_db \<Rightarrow> str \<Rightarrow> bool \<Rightarrow> str \<Rightarrow> nat \<Rightarrow> bool" where
  "found_at u kw prev s i =
     (prefix kw (drop i s) \<and>
      \<not> (if i = 0 then prev else word_char u (s ! (i - 1))) \<and>
      \<not> starts_with_word_char u (drop (i + length kw) s))"

section \<open>What the extraction does, in words\<close>

text \<open>
  A description of \<^verbatim>\<open>_extract_sql\<close> kept apart from the code above. A fenced code
  block is the text between the first fence of the text, wherever it stands, and
  the next fence; when the tag \<^verbatim>\<open>sql\<close>, in any case, directly follows the first
  fence it is taken off. No other tag is taken off.
\<close>

definition untag :: "unicode_db \<Rightarrow> str \<Rightarrow> str" where
  "untag u s = (if matches_tag u s then drop 3 s else s)"

definition fenced_body :: "unicode_db \<Rightarrow> str \<Rightarrow> str option" where
  "fenced_body u t =
     (case before_first fence t of
        None \<Rightarrow> None
      | Some pre \<Rightarrow> before_first fence (untag u (drop (length pre + length fence) t)))"

text \<open>
  The text before the first explanation marker: of the markers that occur, the
  one whose first occurrence starts earliest.
\<close>

fun earliest_marker :: "str list \<Rightarrow> str \<Rightarrow> str option" where
  "earliest_marker [] t = None"
| "earliest_marker (m # ms) t =
     (case before_first m t of
        None \<Rightarrow> earliest_marker ms t
      | Some h \<Rightarrow>
          (case earliest_marker ms t of
             None \<Rightarrow> Some h
           | Some h' \<Rightarrow> Some (if length h \<le> length h' then h else h')))"

text \<open>
  The body of the first fenced block if there is one, otherwise the raw text;
  trimmed; cut at the first explanation marker, the text kept being trimmed
  again.
\<close>

definition extract_described :: "unicode_db \<Rightarrow> str \<Rightarrow> str" where
  "extract_described u response_text =
     (let body = (case fenced_body u response_text of Some b \<Rightarrow> b | None \<Rightarrow> response_text);
          query = strip u body
      in case earliest_marker explanation_separators query of
           None \<Rightarrow> query
         | Some head \<Rightarrow> strip u head)"

text \<open>
  What the proofs about the extraction take from the tables: the backtick is not
  whitespace, the line feed is, the last character of each explanation marker is
  not, and a character that matches a letter of the tag under IGNORECASE is
  neither a backtick nor whitespace.
\<close>

definition extraction_tables :: "unicode_db \<Rightarrow> bool" where
  "extraction_tables u =
     (\<not> space_char u 0x60 \<and> space_char u 0x0A \<and>
      (\<forall>m\<in>set explanation_separators. \<not> space_char u (last m)) \<and>
      (\<forall>p\<in>set sql_tag. \<forall>c. ignorecase u p c \<longrightarrow> c \<noteq> 0x60 \<and> \<not> space_char u c))"

text \<open>
  Three notions used in the proofs only: trimming on the right, the shape shared
  by the explanation markers (two line feeds, then at least one character, none
  of them a line feed and the last one not whitespace), and a text without
  whitespace at either end.
\<close>

definition rstrip :: "unicode_db \<Rightarrow> str \<Rightarrow> str" where
  "rstrip u s = rev (dropWhile (space_char u) (rev s))"

definition is_marker :: "unicode_db \<Rightarrow> str \<Rightarrow> bool" where
  "is_marker u m =
     (case m of
        a # b # c # w \<Rightarrow>
          a = 0x0A \<and> b = 0x0A \<and> 0x0A \<notin> set (c # w) \<and> \<not> space_char u (last (c # w))
      | _ \<Rightarrow> False)"

definition trimmed :: "unicode_db \<Rightarrow> str \<Rightarrow> bool" where
  "trimmed u q = (q = [] \<or> (\<not> space_char u (hd q) \<and> \<not> space_char u (last q)))"

section \<open>The tables on ASCII text\<close>

text \<open>
  For the example runs: the four tables restricted to ASCII. On a text of ASCII
  characters they give what the Python runtime gives. They know no case, no word
  character and no whitespace outside ASCII, so they say nothing of other texts;
  every text that the example runs pass to them is ASCII.
\<close>

definition ascii_upper :: "codepoint \<Rightarrow> codepoint" where
  "ascii_upper c = (if 97 \<le> c \<and> c \<le> 122 then c - 32 else c)"

definition ascii :: unicode_db where
  "ascii =
     \<lparr>str_upper = map ascii_upper,
      word_char = (\<lambda>c. (48 \<le> c \<and> c \<le> 57) \<or> (65 \<le> c \<and> c \<le> 90) \<or> c = 95 \<or>
                        (97 \<le> c \<and> c \<le> 122)),
      space_char = (\<lambda>c. (9 \<le> c \<and> c \<le> 13) \<or> (28 \<le> c \<and> c \<le> 31) \<or> c = 32),
      ignorecase = (\<lambda>p c. ascii_upper p = ascii_upper c)\<rparr>"

text \<open>
  The same with two Greek characters added, for a text on which uppercasing does
  not stay in place: U+0345, the combining iota subscript, is not a word
  character, and \<^verbatim>\<open>str.upper\<close> turns it into U+0399, the capital letter iota,
  which is one.
\<close>

definition ascii_and_iota :: unicode_db where
  "ascii_and_iota =
     ascii
       \<lparr>str_upper := map (\<lambda>c. if c = 0x345 then 0x399 else ascii_upper c),
        word_char := (\<lambda>c. word_char ascii c \<or> c = 0x399)\<rparr>"

section \<open>Example runs\<close>

text \<open>A data frame is a list of rows here; the agent never looks inside one.\<close>

type_synonym frame = "str list list"

definition example_agent :: agent where
  "example_agent =
     \<lparr>base_url = lit ''http://localhost:11434'', model_name = lit ''deepseek-v3.1:671b-cloud'',
      schema_context = Some (lit ''Table: [dbo].[t]'')\<rparr>"

text \<open>The backend answers with a fenced query and the database accepts it.\<close>

definition backend_ok :: "frame world" where
  "backend_ok =
     \<lparr>chat = (\<lambda>k p. Inr (fence @ lit ''sql\<newline>SELECT name FROM t\<newline>'' @ fence)),
      read_sql = (\<lambda>k s. Inr [[lit ''ann'']])\<rparr>"

text \<open>The first query names a column that does not exist, the second one is right.\<close>

definition heals_on_second :: "frame world" where
  "heals_on_second =
     \<lparr>chat = (\<lambda>k p. Inr (if k = 1 then (lit ''SELECT nme FROM t'') else (lit ''SELECT name FROM t''))),
      read_sql = (\<lambda>k s. if s = lit ''SELECT name FROM t'' then Inr [[lit ''ann'']]
                          else Inl (lit ''Invalid column name''))\<rparr>"

text \<open>The backend is unreachable once, then asks for a table to be dropped.\<close>

definition down_then_drop :: "frame world" where
  "down_then_drop =
     \<lparr>chat = (\<lambda>k p. if k = 1 then Inl (lit ''connection refused'') else Inr (lit ''DROP TABLE t'')),
      read_sql = (\<lambda>k s. Inr [])\<rparr>"

text \<open>Every query is rejected by the database.\<close>

definition always_failing :: "frame world" where
  "always_failing =
     \<lparr>chat = (\<lambda>k p. Inr (if k = 1 then (lit ''SELECT a FROM t'') else (lit ''SELECT b FROM t''))),
      read_sql = (\<lambda>k s. Inl (lit ''Invalid object name''))\<rparr>"

text \<open>The backend is unreachable on the first attempt only.\<close>

definition down_once :: "frame world" where
  "down_once =
     \<lparr>chat = (\<lambda>k p. if k = 1 then Inl (lit ''connection refused'') else Inr (lit ''SELECT 1'')),
      read_sql = (\<lambda>k s. Inr [[lit ''1'']])\<rparr>"

text \<open>A rejected query, then a backend failure, then another rejected query.\<close>

definition fails_between :: "frame world" where
  "fails_between =
     \<lparr>chat = (\<lambda>k p. if k = 1 then Inr (lit ''SELECT a FROM t'')
                      else if k = 2 then Inl (lit ''timed out'')
                      else Inr (lit ''SELECT b FROM t'')),
      read_sql = (\<lambda>k s. Inl (lit ''Invalid object name''))\<rparr>"

text \<open>The backend's first answer is empty.\<close>

definition empty_reply :: "frame world" where
  "empty_reply =
     \<lparr>chat = (\<lambda>k p. if k = 1 then Inr [] else Inr (lit ''SELECT 1'')),
      read_sql = (\<lambda>k s. if s = [] then Inl (lit ''empty statement'') else Inr [[lit ''1'']])\<rparr>"

text \<open>
  The backend answers \<^verbatim>\<open>DROP\<close>, a combining iota subscript, and \<^verbatim>\<open> TABLE t\<close>; the
  database returns no rows.
\<close>

definition iota_subscript_reply :: "frame world" where
  "iota_subscript_reply =
     \<lparr>chat = (\<lambda>k p. Inr (lit ''DROP'' @ [0x345] @ lit '' TABLE t'')),
      read_sql = (\<lambda>k s. Inr [])\<rparr>"

section \<open>Properties of one attempt\<close>

declare retry_loop.simps [simp del]

declare locals_at.simps [simp del]

lemma validate_keywords_result:
  "validate_keywords u ks s = Inr True \<or>
   (\<exists>k\<in>set ks. re_search u k s \<and>
      validate_keywords u ks s = Inl (SafetyViolationError (violation_message k)))"
  by (induction ks) auto

lemma validate_sql_safety_result:
  "validate_sql_safety u s = Inr True \<or>
   (\<exists>k\<in>set DESTRUCTIVE_KEYWORDS.
      validate_sql_safety u s = Inl (SafetyViolationError (violation_message k)))"
  using validate_keywords_result [of u DESTRUCTIVE_KEYWORDS "str_upper u s"]
  by (auto simp: validate_sql_safety_def)

lemma validate_not_Exception: "validate_sql_safety u s \<noteq> Inl (Exception m)"
  using validate_sql_safety_result [of u s] by auto

lemma validate_Inr: "validate_sql_safety u s = Inr b \<Longrightarrow> b"
  using validate_sql_safety_result [of u s] by auto

lemma try_block_success:
  assumes "try_block u self w q a l = (Inr (df, g), l')"
  shows "\<exists>content.
           chat w a (build_prompt self q (previous_sql l) (error_message l)) = Inr content \<and>
           g = extract_sql u content \<and> validate_sql_safety u g = Inr True \<and>
           read_sql w a g = Inr df \<and>
           calls l' = calls l @
             [Generate a (build_prompt self q (previous_sql l) (error_message l)), Execute a g]"
  using assms validate_Inr
  by (auto simp: try_block_def generate_safe_sql_def execute_query_def Let_def
           split: sum.splits)

lemma try_block_fatal:
  assumes "try_block u self w q a l = (Inl (SafetyViolationError m), l')"
  shows "\<exists>content.
           chat w a (build_prompt self q (previous_sql l) (error_message l)) = Inr content \<and>
           validate_sql_safety u (extract_sql u content) = Inl (SafetyViolationError m) \<and>
           calls l' = calls l @
             [Generate a (build_prompt self q (previous_sql l) (error_message l))]"
  using assms
  by (auto simp: try_block_def generate_safe_sql_def execute_query_def Let_def
           split: sum.splits)

lemma try_block_retryable:
  assumes "try_block u self w q a l = (Inl (Exception m), l')"
  shows "(chat w a (build_prompt self q (previous_sql l) (error_message l)) = Inl m \<and>
          sql l' = sql l \<and>
          calls l' = calls l @
            [Generate a (build_prompt self q (previous_sql l) (error_message l))]) \<or>
         (\<exists>content e.
            chat w a (build_prompt self q (previous_sql l) (error_message l)) = Inr content \<and>
            validate_sql_safety u (extract_sql u content) = Inr True \<and>
            read_sql w a (extract_sql u content) = Inl e \<and> m = sql_error e \<and>
            sql l' = Some (extract_sql u content) \<and>
            calls l' = calls l @
              [Generate a (build_prompt self q (previous_sql l) (error_message l)),
               Execute a (extract_sql u content)])"
  using assms validate_Inr validate_not_Exception
  by (auto simp: try_block_def generate_safe_sql_def execute_query_def Let_def
           split: sum.splits)

lemma try_block_keeps:
  assumes "try_block u self w q a l = (r, l')"
  shows "previous_sql l' = previous_sql l \<and> error_message l' = error_message l"
  using assms
  by (auto simp: try_block_def generate_safe_sql_def execute_query_def Let_def
           split: sum.splits)

lemma generator_calls_append [simp]:
  "generator_calls (xs @ ys) = generator_calls xs + generator_calls ys"
  by (simp add: generator_calls_def)

lemma executor_calls_append [simp]:
  "executor_calls (xs @ ys) = executor_calls xs + executor_calls ys"
  by (simp add: executor_calls_def)

lemma generator_calls_simps [simp]:
  "generator_calls [] = 0"
  "generator_calls (Generate a p # cs) = Suc (generator_calls cs)"
  "generator_calls (Execute a s # cs) = generator_calls cs"
  by (simp_all add: generator_calls_def)

lemma executor_calls_simps [simp]:
  "executor_calls [] = 0"
  "executor_calls (Generate a p # cs) = executor_calls cs"
  "executor_calls (Execute a s # cs) = Suc (executor_calls cs)"
  by (simp_all add: executor_calls_def)

lemma generation_failures_append [simp]:
  "generation_failures w (xs @ ys) = generation_failures w xs + generation_failures w ys"
  by (simp add: generation_failures_def)

lemma generation_failures_simps [simp]:
  "generation_failures w [] = 0"
  "generation_failures w (Generate a p # cs) = (if isl (chat w a p) then 1 else 0) + generation_failures w cs"
  "generation_failures w (Execute a s # cs) = generation_failures w cs"
  by (simp_all add: generation_failures_def)

lemma before_first_prefix: "prefix sep s \<Longrightarrow> before_first sep s = Some []"
  by (cases s) auto

lemma before_first_append: "before_first sep (pre @ sep @ post) \<noteq> None"
  by (induction pre) (auto simp: before_first_prefix)

lemma contains_append: "contains sub (pre @ sub @ post)"
  by (simp add: contains_def before_first_append)

section \<open>A proof rule for the retry loop\<close>

text \<open>
  To show that every result of the loop satisfies \<open>R\<close>, give an invariant \<open>I\<close> of
  the attempt ordinal and the locals that holds at the start and is kept by a
  failed attempt that is retried, and show \<open>R\<close> for each of the four ways the
  loop is left.
\<close>

lemma retry_loop_rule:
  assumes retry: "\<And>a l msg l'. I a l \<Longrightarrow> a < N \<Longrightarrow>
                  try_block u self w q a l = (Inl (Exception msg), l') \<Longrightarrow>
                  I (a + 1) (l'\<lparr>error_message := Some msg, previous_sql := sql l'\<rparr>)"
    and none: "\<And>a l. I a l \<Longrightarrow> N < a \<Longrightarrow> R (Inr None, calls l)"
    and success: "\<And>a l df g l'. I a l \<Longrightarrow> a \<le> N \<Longrightarrow>
                  try_block u self w q a l = (Inr (df, g), l') \<Longrightarrow>
                  R (Inr (Some (df, g)), calls l')"
    and fatal: "\<And>a l msg l'. I a l \<Longrightarrow> a \<le> N \<Longrightarrow>
                  try_block u self w q a l = (Inl (SafetyViolationError msg), l') \<Longrightarrow>
                  R (Inl (SafetyViolationError msg), calls l')"
    and exhausted: "\<And>l msg l'. I N l \<Longrightarrow>
                  try_block u self w q N l = (Inl (Exception msg), l') \<Longrightarrow>
                  R (Inl (Exception (exhausted_message N msg)), calls l')"
    and init: "I attempt l"
  shows "R (retry_loop u self w q N attempt l)"
  using assms
proof (induction u self w q N attempt l rule: retry_loop.induct)
  case (1 u self w q N a l)
  show ?case
  proof (cases "N < a")
    case True
    have "R (Inr None, calls l)" by (rule "1.prems"(2) [OF "1.prems"(6) True])
    with True show ?thesis by (simp add: retry_loop.simps)
  next
    case False
    then have le: "a \<le> N" by simp
    obtain r l' where tb: "try_block u self w q a l = (r, l')"
      by (cases "try_block u self w q a l")
    show ?thesis
    proof (cases r)
      case (Inr p)
      obtain df g where p: "p = (df, g)" by (cases p)
      have "R (Inr (Some (df, g)), calls l')"
        using "1.prems"(3) [OF "1.prems"(6) le] tb Inr p by simp
      with Inr tb False p show ?thesis
        by (simp add: retry_loop.simps)
    next
      case (Inl e)
      show ?thesis
      proof (cases e)
        case (SafetyViolationError msg)
        have "R (Inl (SafetyViolationError msg), calls l')"
          using "1.prems"(4) [OF "1.prems"(6) le] tb Inl SafetyViolationError by simp
        with Inl tb False SafetyViolationError show ?thesis
          by (simp add: retry_loop.simps)
      next
        case (Exception msg)
        show ?thesis
        proof (cases "a = N")
          case True
          have "R (Inl (Exception (exhausted_message N msg)), calls l')"
            using "1.prems"(5) [of l msg l'] "1.prems"(6) tb Inl Exception True by simp
          with Exception Inl tb True show ?thesis
            by (simp add: retry_loop.simps)
        next
          case neq: False
          with False have lt: "a < N" by simp
          have inv: "I (a + 1) (l'\<lparr>error_message := Some msg, previous_sql := sql l'\<rparr>)"
            using "1.prems"(1) [OF "1.prems"(6) lt] tb Inl Exception by simp
          have "R (retry_loop u self w q N (a + 1)
                     (l'\<lparr>error_message := Some msg, previous_sql := sql l'\<rparr>))"
            by (rule "1.IH" [OF False tb [symmetric] Inl Exception refl neq "1.prems"(1-5) inv])
          then show ?thesis
            using False tb Inl Exception neq
            by (simp add: retry_loop.simps [of u self w q N a l] Let_def)
        qed
      qed
    qed
  qed
qed

section \<open>Properties of a run\<close>

text \<open>
  C3. For \<open>max_retries = N\<close> with \<open>N \<ge> 1\<close>, a run calls the generator at most \<open>N\<close>
  times and the executor at most \<open>N\<close> times, and it ends in one of three ways:
  with the pair returned, with the safety violation, or with the final exception
  after \<open>N\<close> failed attempts. Every attempt starts with its generator call, so the
  number of generator calls is the number of attempts. The loop is a total
  function (its termination is proved with the definition), given that each
  call to a collaborator returns.
\<close>

theorem bounded_attempts:
  assumes "1 \<le> N"
  shows "generator_calls (snd (execute_with_retry u self w q N)) \<le> nat N \<and>
         executor_calls (snd (execute_with_retry u self w q N)) \<le> nat N \<and>
         terminal N (fst (execute_with_retry u self w q N))"
proof -
  let ?I = "\<lambda>a l. 1 \<le> a \<and> a \<le> N \<and> generator_calls (calls l) = nat (a - 1) \<and>
                   executor_calls (calls l) \<le> nat (a - 1)"
  let ?R = "\<lambda>x. generator_calls (snd x) \<le> nat N \<and> executor_calls (snd x) \<le> nat N \<and>
                 terminal N (fst x)"
  have "?R (retry_loop u self w q N 1
              \<lparr>previous_sql = None, error_message = None, sql = None, calls = []\<rparr>)"
  proof (rule retry_loop_rule [where I = ?I and R = ?R])
    fix a and l :: locals and msg l'
    assume "?I a l" "a < N" "try_block u self w q a l = (Inl (Exception msg), l')"
    then show "?I (a + 1) (l'\<lparr>error_message := Some msg, previous_sql := sql l'\<rparr>)"
      using try_block_retryable [of u self w q a l msg l'] by auto
  next
    fix a and l :: locals
    assume "?I a l" "N < a"
    then show "?R (Inr None, calls l)" by simp
  next
    fix a and l :: locals and df g l'
    assume "?I a l" "a \<le> N" "try_block u self w q a l = (Inr (df, g), l')"
    then show "?R (Inr (Some (df, g)), calls l')"
      using try_block_success [of u self w q a l df g l'] by (auto simp: terminal_def)
  next
    fix a and l :: locals and msg l'
    assume "?I a l" "a \<le> N" "try_block u self w q a l = (Inl (SafetyViolationError msg), l')"
    then show "?R (Inl (SafetyViolationError msg), calls l')"
      using try_block_fatal [of u self w q a l msg l'] by (auto simp: terminal_def)
  next
    fix l :: locals and msg l'
    assume "?I N l" "try_block u self w q N l = (Inl (Exception msg), l')"
    then show "?R (Inl (Exception (exhausted_message N msg)), calls l')"
      using try_block_retryable [of u self w q N l msg l'] by (auto simp: terminal_def)
  qed (use assms in simp)
  then show ?thesis by (simp add: execute_with_retry_def)
qed

theorem bounded_attempts_witness:
  "(1::int) \<le> 2 \<and>
   generator_calls (snd (execute_with_retry ascii example_agent always_failing (lit ''names?'') 2)) \<le> nat 2 \<and>
   executor_calls (snd (execute_with_retry ascii example_agent always_failing (lit ''names?'') 2)) \<le> nat 2 \<and>
   terminal 2 (fst (execute_with_retry ascii example_agent always_failing (lit ''names?'') 2))"
  using bounded_attempts [of 2 ascii example_agent always_failing "(lit ''names?'')"] by simp

text \<open>
  C10. For \<open>max_retries\<close> zero or negative, \<^verbatim>\<open>execute_with_retry\<close> calls neither
  collaborator and returns \<^verbatim>\<open>None\<close>: no pair, and no exception.
\<close>

theorem no_attempts:
  "max_retries \<le> 0 \<Longrightarrow> execute_with_retry u self w user_query max_retries = (Inr None, [])"
  by (simp add: execute_with_retry_def retry_loop.simps)

theorem no_attempts_witness:
  "(0::int) \<le> 0 \<and> execute_with_retry ascii example_agent backend_ok (lit ''names?'') 0 = (Inr None, [])"
  using no_attempts [of 0 ascii example_agent backend_ok "(lit ''names?'')"] by simp

lemma retry_loop_stops_on_violation:
  assumes "a \<le> N"
    and "chat w a (build_prompt self q (previous_sql l) (error_message l)) = Inr content"
    and "validate_sql_safety u (extract_sql u content) = Inl e"
  shows "retry_loop u self w q N a l =
           (Inl e, calls l @ [Generate a (build_prompt self q (previous_sql l) (error_message l))])"
proof -
  from assms(3) validate_sql_safety_result [of u "extract_sql u content"]
  obtain m where m: "e = SafetyViolationError m" by auto
  have "try_block u self w q a l =
          (Inl (SafetyViolationError m),
           l\<lparr>calls := calls l @
                 [Generate a (build_prompt self q (previous_sql l) (error_message l))],
              sql := Some (extract_sql u content)\<rparr>)"
    using assms(2,3) m by (simp add: try_block_def generate_safe_sql_def Let_def)
  with assms(1) m show ?thesis by (simp add: retry_loop.simps [of u self w q N a l])
qed

lemma locals_at_reaches:
  "a \<le> k \<Longrightarrow> k \<le> N \<Longrightarrow> locals_at u self w q k a l = Some lk \<Longrightarrow>
   retry_loop u self w q N a l = retry_loop u self w q N k lk"
proof (induction u self w q k a l rule: locals_at.induct)
  case (1 u self w q k a l)
  show ?case
  proof (cases "k = a")
    case True
    with "1.prems"(3) show ?thesis by (simp add: locals_at.simps [of u self w q a a l])
  next
    case False
    with "1.prems"(1) have lt: "a < k" and nl: "\<not> k < a" and lt': "a + 1 \<le> k"
      by simp_all
    obtain r l' where tb: "try_block u self w q a l = (r, l')"
      by (cases "try_block u self w q a l")
    from "1.prems"(3) lt False tb obtain msg where r: "r = Inl (Exception msg)"
      and next_at: "locals_at u self w q k (a + 1)
                      (l'\<lparr>error_message := Some msg, previous_sql := sql l'\<rparr>) = Some lk"
      by (auto simp: locals_at.simps [of u self w q k a l] split: sum.splits error.splits)
    have "retry_loop u self w q N (a + 1)
            (l'\<lparr>error_message := Some msg, previous_sql := sql l'\<rparr>) =
          retry_loop u self w q N k lk"
      using lt by (intro "1.IH" [OF nl False tb [symmetric] r refl _ "1.prems"(2) next_at]) simp
    then show ?thesis
      using lt "1.prems"(2) tb r
      by (simp add: retry_loop.simps [of u self w q N a l] Let_def)
  qed
qed

lemma locals_at_counts:
  "a \<le> k \<Longrightarrow> locals_at u self w q k a l = Some lk \<Longrightarrow>
   generator_calls (calls lk) = generator_calls (calls l) + nat (k - a) \<and>
   executor_calls (calls lk) + generation_failures w (calls lk) =
     executor_calls (calls l) + generation_failures w (calls l) + nat (k - a)"
proof (induction u self w q k a l rule: locals_at.induct)
  case (1 u self w q k a l)
  show ?case
  proof (cases "k = a")
    case True
    with "1.prems"(2) show ?thesis by (simp add: locals_at.simps [of u self w q a a l])
  next
    case False
    with "1.prems"(1) have lt: "a < k" and nl: "\<not> k < a" and lt': "a + 1 \<le> k"
      by simp_all
    obtain r l' where tb: "try_block u self w q a l = (r, l')"
      by (cases "try_block u self w q a l")
    from "1.prems"(2) lt False tb obtain msg where r: "r = Inl (Exception msg)"
      and next_at: "locals_at u self w q k (a + 1)
                      (l'\<lparr>error_message := Some msg, previous_sql := sql l'\<rparr>) = Some lk"
      by (auto simp: locals_at.simps [of u self w q k a l] split: sum.splits error.splits)
    have step: "generator_calls (calls l') = generator_calls (calls l) + 1 \<and>
                executor_calls (calls l') + generation_failures w (calls l') =
                  executor_calls (calls l) + generation_failures w (calls l) + 1"
      using try_block_retryable [of u self w q a l msg l'] tb r by auto
    have "generator_calls (calls lk) = generator_calls (calls l') + nat (k - (a + 1)) \<and>
          executor_calls (calls lk) + generation_failures w (calls lk) =
            executor_calls (calls l') + generation_failures w (calls l') + nat (k - (a + 1))"
      using "1.IH" [OF nl False tb [symmetric] r refl lt' next_at] by simp
    with step lt show ?thesis by (simp add: nat_diff_distrib)
  qed
qed

text \<open>
  C2, as amended. When the run reaches attempt \<open>k\<close> (every earlier attempt ended
  with an exception that was retried) and the validation of the text generated
  by attempt \<open>k\<close> raises, the run ends there with that error, a
  \<^verbatim>\<open>SafetyViolationError\<close>, whatever the budget \<open>N \<ge> k\<close>: nothing is retried and the
  generator call of attempt \<open>k\<close> is the last call made, so the offending text is
  not executed. The run has made exactly \<open>k\<close> generator calls, and one executor
  call for each of the \<open>k - 1\<close> earlier attempts whose generation did not fail:
  executor calls plus generation failures are \<open>k - 1\<close>.
\<close>

theorem fatal_short_circuit:
  assumes "1 \<le> k" and "k \<le> N"
    and "locals_at u self w q k 1
           \<lparr>previous_sql = None, error_message = None, sql = None, calls = []\<rparr> = Some l"
    and "chat w k (build_prompt self q (previous_sql l) (error_message l)) = Inr content"
    and "validate_sql_safety u (extract_sql u content) = Inl e"
  shows "execute_with_retry u self w q N =
           (Inl e, calls l @ [Generate k (build_prompt self q (previous_sql l) (error_message l))]) \<and>
         (\<exists>m. e = SafetyViolationError m) \<and>
         generator_calls (snd (execute_with_retry u self w q N)) = nat k \<and>
         executor_calls (snd (execute_with_retry u self w q N)) +
           generation_failures w (snd (execute_with_retry u self w q N)) + 1 = nat k"
proof -
  let ?l0 = "\<lparr>previous_sql = None, error_message = None, sql = None, calls = []\<rparr>"
  let ?p = "build_prompt self q (previous_sql l) (error_message l)"
  have "execute_with_retry u self w q N = retry_loop u self w q N k l"
    unfolding execute_with_retry_def by (rule locals_at_reaches [OF assms(1,2,3)])
  also have "\<dots> = (Inl e, calls l @ [Generate k ?p])"
    by (rule retry_loop_stops_on_violation [OF assms(2,4,5)])
  finally have run: "execute_with_retry u self w q N = (Inl e, calls l @ [Generate k ?p])" .
  from assms(5) validate_sql_safety_result [of u "extract_sql u content"]
  have viol: "\<exists>m. e = SafetyViolationError m" by auto
  from locals_at_counts [OF assms(1,3)]
  have counts: "generator_calls (calls l) = nat (k - 1)"
    "executor_calls (calls l) + generation_failures w (calls l) = nat (k - 1)" by simp_all
  have "generator_calls (calls l @ [Generate k ?p]) = nat k"
    using counts(1) assms(1) by simp
  moreover have "executor_calls (calls l @ [Generate k ?p]) +
      generation_failures w (calls l @ [Generate k ?p]) + 1 = nat k"
    using counts(2) assms(1,4) by simp
  ultimately show ?thesis using run viol by simp
qed

theorem fatal_short_circuit_witness:
  "(1::int) \<le> 2 \<and> (2::int) \<le> 3 \<and>
   locals_at ascii example_agent down_then_drop (lit ''names?'') 2 1
     \<lparr>previous_sql = None, error_message = None, sql = None, calls = []\<rparr> =
     Some \<lparr>previous_sql = None, error_message = Some (lit ''connection refused''), sql = None,
           calls = [Generate 1 (build_initial_prompt example_agent (lit ''names?''))]\<rparr> \<and>
   chat down_then_drop 2 (build_initial_prompt example_agent (lit ''names?'')) =
     Inr (lit ''DROP TABLE t'') \<and>
   validate_sql_safety ascii (extract_sql ascii (lit ''DROP TABLE t'')) =
     Inl (SafetyViolationError (violation_message (lit ''DROP''))) \<and>
   execute_with_retry ascii example_agent down_then_drop (lit ''names?'') 3 =
     (Inl (SafetyViolationError (violation_message (lit ''DROP''))),
      [Generate 1 (build_initial_prompt example_agent (lit ''names?'')),
       Generate 2 (build_initial_prompt example_agent (lit ''names?''))]) \<and>
   generator_calls (snd (execute_with_retry ascii example_agent down_then_drop (lit ''names?'') 3)) =
     nat 2 \<and>
   executor_calls (snd (execute_with_retry ascii example_agent down_then_drop (lit ''names?'') 3)) +
     generation_failures down_then_drop
       (snd (execute_with_retry ascii example_agent down_then_drop (lit ''names?'') 3)) + 1 = nat 2"
proof -
  let ?l = "\<lparr>previous_sql = None, error_message = Some (lit ''connection refused''), sql = None,
           calls = [Generate 1 (build_initial_prompt example_agent (lit ''names?''))]\<rparr>"
  have h1: "(1::int) \<le> 2" and h2: "(2::int) \<le> 3" by simp_all
  have h3: "locals_at ascii example_agent down_then_drop (lit ''names?'') 2 1
     \<lparr>previous_sql = None, error_message = None, sql = None, calls = []\<rparr> = Some ?l"
    by code_simp
  have p: "build_prompt example_agent (lit ''names?'') (previous_sql ?l) (error_message ?l) =
           build_initial_prompt example_agent (lit ''names?'')"
    by (simp add: build_prompt_def)
  have h4: "chat down_then_drop 2
              (build_prompt example_agent (lit ''names?'') (previous_sql ?l) (error_message ?l)) =
            Inr (lit ''DROP TABLE t'')"
    by (simp add: down_then_drop_def)
  have h5: "validate_sql_safety ascii (extract_sql ascii (lit ''DROP TABLE t'')) =
     Inl (SafetyViolationError (violation_message (lit ''DROP'')))"
    by code_simp
  have h4': "chat down_then_drop 2 (build_initial_prompt example_agent (lit ''names?'')) =
     Inr (lit ''DROP TABLE t'')"
    using h4 by (simp only: p)
  have run: "execute_with_retry ascii example_agent down_then_drop (lit ''names?'') 3 =
     (Inl (SafetyViolationError (violation_message (lit ''DROP''))),
      [Generate 1 (build_initial_prompt example_agent (lit ''names?'')),
       Generate 2 (build_initial_prompt example_agent (lit ''names?''))])"
    by code_simp
  from fatal_short_circuit [OF h1 h2 h3 h4 h5]
  have g: "generator_calls
             (snd (execute_with_retry ascii example_agent down_then_drop (lit ''names?'') 3)) = nat 2"
    and x: "executor_calls
              (snd (execute_with_retry ascii example_agent down_then_drop (lit ''names?'') 3)) +
            generation_failures down_then_drop
              (snd (execute_with_retry ascii example_agent down_then_drop (lit ''names?'') 3)) + 1 =
            nat 2"
    by blast+
  show ?thesis by (intro conjI; fact h1 h2 h3 h4' h5 run g x)
qed

text \<open>
  The claim as stated, exactly \<open>k - 1\<close> executor calls, fails when an earlier
  attempt failed in generation: here attempt 1 finds the backend unreachable and
  attempt 2 is a safety violation, after two generator calls and no executor call.
\<close>

theorem fatal_short_circuit_counterexample:
  "fst (execute_with_retry ascii example_agent down_then_drop (lit ''names?'') 3) =
     Inl (SafetyViolationError (violation_message (lit ''DROP''))) \<and>
   snd (execute_with_retry ascii example_agent down_then_drop (lit ''names?'') 3) =
     [Generate 1 (build_initial_prompt example_agent (lit ''names?'')),
      Generate 2 (build_initial_prompt example_agent (lit ''names?''))] \<and>
   generator_calls (snd (execute_with_retry ascii example_agent down_then_drop (lit ''names?'') 3)) = 2 \<and>
   executor_calls (snd (execute_with_retry ascii example_agent down_then_drop (lit ''names?'') 3)) \<noteq> 2 - 1"
  by code_simp








lemma retry_loop_log_prefix:
  "prefix (calls l) (snd (retry_loop u self w q N a l))"
proof (rule retry_loop_rule [where I = "\<lambda>a' l'. prefix (calls l) (calls l')"
                              and R = "\<lambda>x. prefix (calls l) (snd x)"])
  fix a and l0 :: locals and msg l'
  assume "prefix (calls l) (calls l0)" "try_block u self w q a l0 = (Inl (Exception msg), l')"
  then show "prefix (calls l) (calls (l'\<lparr>error_message := Some msg, previous_sql := sql l'\<rparr>))"
    using try_block_retryable [of u self w q a l0 msg l'] by (auto simp: prefix_def)
next
  fix a and l0 :: locals and df g l'
  assume "prefix (calls l) (calls l0)" "try_block u self w q a l0 = (Inr (df, g), l')"
  then show "prefix (calls l) (snd (Inr (Some (df, g)), calls l'))"
    using try_block_success [of u self w q a l0 df g l'] by (auto simp: prefix_def)
next
  fix a and l0 :: locals and msg l'
  assume "prefix (calls l) (calls l0)" "try_block u self w q a l0 = (Inl (SafetyViolationError msg), l')"
  then show "prefix (calls l) (snd (Inl (SafetyViolationError msg), calls l'))"
    using try_block_fatal [of u self w q a l0 msg l'] by (auto simp: prefix_def)
next
  fix l0 :: locals and msg l'
  assume "prefix (calls l) (calls l0)" "try_block u self w q N l0 = (Inl (Exception msg), l')"
  then show "prefix (calls l) (snd (Inl (Exception (exhausted_message N msg)), calls l'))"
    using try_block_retryable [of u self w q N l0 msg l'] by (auto simp: prefix_def)
qed simp_all

lemma try_block_log_prefix:
  "prefix (calls l @ [Generate a (build_prompt self q (previous_sql l) (error_message l))])
     (calls (snd (try_block u self w q a l)))"
  by (auto simp: try_block_def generate_safe_sql_def execute_query_def Let_def
           split: sum.splits)

lemma retry_loop_next_prompt:
  assumes "a \<le> N"
  shows "prefix (calls l @ [Generate a (build_prompt self q (previous_sql l) (error_message l))])
           (snd (retry_loop u self w q N a l))"
proof -
  obtain r l' where tb: "try_block u self w q a l = (r, l')" by (cases "try_block u self w q a l")
  have p: "prefix (calls l @ [Generate a (build_prompt self q (previous_sql l) (error_message l))]) (calls l')"
    using try_block_log_prefix [where l = l and a = a and self = self and q = q and w = w and u = u] tb by simp
  show ?thesis
  proof (cases "\<exists>msg. r = Inl (Exception msg) \<and> a \<noteq> N")
    case True
    then obtain msg where r: "r = Inl (Exception msg)" and neq: "a \<noteq> N" by blast
    have "prefix (calls l') (snd (retry_loop u self w q N (a + 1)
              (l'\<lparr>error_message := Some msg, previous_sql := sql l'\<rparr>)))"
      using retry_loop_log_prefix [of "l'\<lparr>error_message := Some msg, previous_sql := sql l'\<rparr>"] by simp
    with p have "prefix (calls l @ [Generate a (build_prompt self q (previous_sql l) (error_message l))])
        (snd (retry_loop u self w q N (a + 1) (l'\<lparr>error_message := Some msg, previous_sql := sql l'\<rparr>)))"
      by (rule prefix_order.trans)
    then show ?thesis using assms tb r neq
      by (simp add: retry_loop.simps [of u self w q N a l] Let_def)
  next
    case False
    then show ?thesis using assms tb p
      by (auto simp: retry_loop.simps [of u self w q N a l] Let_def split: sum.splits error.splits)
  qed
qed

text \<open>
  C7, as amended. When generation fails on attempt 1, the failure is retried
  (given \<open>N \<ge> 2\<close>), and the prompt of attempt 2 is the plain initial prompt, the
  same as that of attempt 1: with no query text yet, the error is recorded in
  \<open>error_message\<close> but not sent to the backend.
\<close>

theorem generation_failure_retried:
  assumes "2 \<le> N" and "chat w 1 (build_initial_prompt self q) = Inl e"
  shows "take 2 (snd (execute_with_retry u self w q N)) =
           [Generate 1 (build_initial_prompt self q), Generate 2 (build_initial_prompt self q)]"
proof -
  let ?l0 = "\<lparr>previous_sql = None, error_message = None, sql = None, calls = []\<rparr>"
  let ?l1 = "\<lparr>previous_sql = None, error_message = Some e, sql = None,
              calls = [Generate 1 (build_initial_prompt self q)]\<rparr>"
  have tb: "try_block u self w q 1 ?l0 = (Inl (Exception e), ?l0\<lparr>calls := [Generate 1 (build_initial_prompt self q)]\<rparr>)"
    using assms(2) by (simp add: try_block_def build_prompt_def generate_safe_sql_def Let_def)
  have "execute_with_retry u self w q N = retry_loop u self w q N 2 ?l1"
    using assms(1) tb by (simp add: execute_with_retry_def retry_loop.simps [of u self w q N 1] Let_def)
  moreover have "prefix (calls ?l1 @ [Generate 2 (build_prompt self q (previous_sql ?l1) (error_message ?l1))])
       (snd (retry_loop u self w q N 2 ?l1))"
    using assms(1) by (intro retry_loop_next_prompt) simp
  ultimately have "prefix [Generate 1 (build_initial_prompt self q), Generate 2 (build_initial_prompt self q)]
       (snd (execute_with_retry u self w q N))"
    by (simp add: build_prompt_def)
  then show ?thesis by (auto simp: prefix_def)
qed

theorem generation_failure_retried_witness:
  "(2::int) \<le> 3 \<and>
   chat down_once 1 (build_initial_prompt example_agent (lit ''names?'')) = Inl (lit ''connection refused'') \<and>
   take 2 (snd (execute_with_retry ascii example_agent down_once (lit ''names?'') 3)) =
     [Generate 1 (build_initial_prompt example_agent (lit ''names?'')),
      Generate 2 (build_initial_prompt example_agent (lit ''names?''))]"
proof -
  have h: "chat down_once 1 (build_initial_prompt example_agent (lit ''names?'')) = Inl (lit ''connection refused'')"
    by (simp add: down_once_def)
  from generation_failure_retried [of 3 down_once example_agent "lit ''names?''"
      "lit ''connection refused''" ascii] h
  show ?thesis by simp
qed

text \<open>
  The claim as stated fails: after a generation failure on attempt 1 the request
  of attempt 2 is the plain initial prompt and does not hold the failure's text.
\<close>

theorem generation_failure_retried_counterexample:
  "chat down_once 1 (build_initial_prompt example_agent (lit ''names?'')) = Inl (lit ''connection refused'') \<and>
   snd (execute_with_retry ascii example_agent down_once (lit ''names?'') 3) =
     [Generate 1 (build_initial_prompt example_agent (lit ''names?'')),
      Generate 2 (build_initial_prompt example_agent (lit ''names?'')),
      Execute 2 (lit ''SELECT 1'')] \<and>
   \<not> contains (lit ''connection refused'') (build_initial_prompt example_agent (lit ''names?''))"
  by code_simp

lemma adjacent_snoc:
  "(\<forall>pre x y post. cs @ [z] = pre @ x # y # post \<longrightarrow> P x y) \<longleftrightarrow>
   (\<forall>pre x y post. cs = pre @ x # y # post \<longrightarrow> P x y) \<and> (cs \<noteq> [] \<longrightarrow> P (last cs) z)"
proof (intro iffI conjI allI impI)
  fix pre x y post
  assume h: "\<forall>pre x y post. cs @ [z] = pre @ x # y # post \<longrightarrow> P x y" and "cs = pre @ x # y # post"
  then have "cs @ [z] = pre @ x # y # (post @ [z])" by simp
  with h show "P x y" by blast
next
  assume h: "\<forall>pre x y post. cs @ [z] = pre @ x # y # post \<longrightarrow> P x y" and "cs \<noteq> []"
  then have "cs @ [z] = butlast cs @ last cs # z # []" by simp
  with h show "P (last cs) z" by blast
next
  fix pre x y post
  assume h: "(\<forall>pre x y post. cs = pre @ x # y # post \<longrightarrow> P x y) \<and> (cs \<noteq> [] \<longrightarrow> P (last cs) z)"
    and eq: "cs @ [z] = pre @ x # y # post"
  show "P x y"
  proof (cases post rule: rev_cases)
    case Nil
    with eq have "cs = pre @ [x]" "z = y" by auto
    with h show ?thesis by simp
  next
    case (snoc post' z')
    with eq have "cs = pre @ x # y # post'" by (metis append_Cons append_assoc butlast_snoc)
    with h show ?thesis by blast
  qed
qed

lemma healing_prompt_contains:
  "contains s (build_healing_prompt self q s e)" "contains e (build_healing_prompt self q s e)"
proof -
  show "contains s (build_healing_prompt self q s e)"
    unfolding build_healing_prompt_def
    using contains_append [of s "(lit ''The previous SQL query failed. Please fix it based on the error message.\<newline>'') @
     lit ''\<newline>'' @
     lit ''DATABASE SCHEMA:\<newline>'' @
     fmt (schema_context self) @ lit ''\<newline>'' @
     lit ''\<newline>'' @
     lit ''ORIGINAL USER QUESTION:\<newline>'' @
     q @ lit ''\<newline>'' @
     lit ''\<newline>'' @
     lit ''PREVIOUS SQL QUERY (FAILED):\<newline>''"]
    by (simp del: append_Cons)
  show "contains e (build_healing_prompt self q s e)"
    unfolding build_healing_prompt_def
    using contains_append [of e "(lit ''The previous SQL query failed. Please fix it based on the error message.\<newline>'') @
     lit ''\<newline>'' @
     lit ''DATABASE SCHEMA:\<newline>'' @
     fmt (schema_context self) @ lit ''\<newline>'' @
     lit ''\<newline>'' @
     lit ''ORIGINAL USER QUESTION:\<newline>'' @
     q @ lit ''\<newline>'' @
     lit ''\<newline>'' @
     lit ''PREVIOUS SQL QUERY (FAILED):\<newline>'' @
     s @ lit ''\<newline>'' @
     lit ''\<newline>'' @
     lit ''ERROR MESSAGE:\<newline>''"]
    by (simp del: append_Cons)
qed


lemma build_prompt_after_execution:
  "build_prompt self q (Some s) (Some (sql_error e)) =
     (if s \<noteq> [] then build_healing_prompt self q s (sql_error e)
      else build_initial_prompt self q)"
  by (simp add: build_prompt_def sql_error_def lit_def)

text \<open>
  C4, as amended. Whenever the generator call of attempt \<open>k\<close> directly follows an
  executor call, that call belongs to attempt \<open>k - 1\<close>, it failed, and with \<open>s\<close> its
  query text and \<open>sql_error e\<close> its error message: if \<open>s\<close> is not empty, the prompt
  of attempt \<open>k\<close> is the healing prompt built from the schema, the question, \<open>s\<close>
  and that message, and holds both literally; if \<open>s\<close> is empty, it is the plain
  initial prompt.
\<close>

theorem healing_feeds_forward:
  assumes "snd (execute_with_retry u self w q N) = pre @ Execute j s # Generate k p # post"
  shows "k = j + 1 \<and>
         (\<exists>e. read_sql w j s = Inl e \<and>
            (if s \<noteq> []
             then p = build_healing_prompt self q s (sql_error e) \<and>
                  contains s p \<and> contains (sql_error e) p
             else p = build_initial_prompt self q))"
proof -
  let ?P = "\<lambda>x y. \<forall>j s k p. x = Execute j s \<longrightarrow> y = Generate k p \<longrightarrow>
      k = j + 1 \<and>
      (\<exists>e. read_sql w j s = Inl e \<and>
         (if s \<noteq> []
          then p = build_healing_prompt self q s (sql_error e) \<and>
               contains s p \<and> contains (sql_error e) p
          else p = build_initial_prompt self q))"
  let ?adj = "\<lambda>cs. \<forall>pre x y post. cs = pre @ x # y # post \<longrightarrow> ?P x y"
  let ?I = "\<lambda>a (l :: locals). ?adj (calls l) \<and>
      (calls l \<noteq> [] \<longrightarrow> (\<forall>j s. last (calls l) = Execute j s \<longrightarrow>
         a = j + 1 \<and> previous_sql l = Some s \<and>
         (\<exists>e. read_sql w j s = Inl e \<and> error_message l = Some (sql_error e))))"
  let ?prompt = "\<lambda>l. build_prompt self q (previous_sql l) (error_message l)"
  have gen: "?adj (calls l @ [Generate a (?prompt l)])" if "?I a l" for a and l :: locals
  proof -
    have "?P (last (calls l)) (Generate a (?prompt l))" if ne: "calls l \<noteq> []"
    proof (intro allI impI)
      fix j s k p
      assume x: "last (calls l) = Execute j s" and y: "Generate a (?prompt l) = Generate k p"
      from \<open>?I a l\<close> ne x obtain e where e: "a = j + 1" "previous_sql l = Some s"
        "read_sql w j s = Inl e" "error_message l = Some (sql_error e)" by blast
      have "p = (if s \<noteq> [] then build_healing_prompt self q s (sql_error e)
                 else build_initial_prompt self q)"
        using y e by (simp add: build_prompt_after_execution)
      then have "if s \<noteq> []
             then p = build_healing_prompt self q s (sql_error e) \<and>
                  contains s p \<and> contains (sql_error e) p
             else p = build_initial_prompt self q"
        using healing_prompt_contains(1) [of s self q "sql_error e"]
          healing_prompt_contains(2) [of "sql_error e" self q s]
        by (cases "s = []") simp_all
      with e y show "k = j + 1 \<and>
         (\<exists>e. read_sql w j s = Inl e \<and>
            (if s \<noteq> []
             then p = build_healing_prompt self q s (sql_error e) \<and>
                  contains s p \<and> contains (sql_error e) p
             else p = build_initial_prompt self q))" by blast
    qed
    with that show ?thesis
      using adjacent_snoc [of "calls l" "Generate a (?prompt l)" ?P] by blast
  qed
  have gen_exec: "?adj (calls l @ [Generate a (?prompt l), Execute a g])"
    if "?I a l" for a g and l :: locals
  proof -
    have "?P (Generate a (?prompt l)) (Execute a g)" by simp
    with gen [OF that] show ?thesis
      using adjacent_snoc [of "calls l @ [Generate a (?prompt l)]" "Execute a g" ?P]
      by simp
  qed
  have "?adj (snd (retry_loop u self w q N 1
              \<lparr>previous_sql = None, error_message = None, sql = None, calls = []\<rparr>))"
  proof (rule retry_loop_rule [where I = ?I and R = "\<lambda>x. ?adj (snd x)"])
    fix a and l :: locals and msg l'
    assume inv: "?I a l" and tb: "try_block u self w q a l = (Inl (Exception msg), l')"
    from try_block_retryable [OF tb]
    show "?I (a + 1) (l'\<lparr>error_message := Some msg, previous_sql := sql l'\<rparr>)"
    proof
      assume "chat w a (?prompt l) = Inl msg \<and> sql l' = sql l \<and>
              calls l' = calls l @ [Generate a (?prompt l)]"
      then show ?thesis using gen [OF inv] by simp
    next
      assume "\<exists>content e. chat w a (?prompt l) = Inr content \<and>
            validate_sql_safety u (extract_sql u content) = Inr True \<and>
            read_sql w a (extract_sql u content) = Inl e \<and> msg = sql_error e \<and>
            sql l' = Some (extract_sql u content) \<and>
            calls l' = calls l @ [Generate a (?prompt l), Execute a (extract_sql u content)]"
      then obtain content e where c: "read_sql w a (extract_sql u content) = Inl e"
        "msg = sql_error e" "sql l' = Some (extract_sql u content)"
        "calls l' = calls l @ [Generate a (?prompt l), Execute a (extract_sql u content)]"
        by blast
      have "?adj (calls l')" unfolding c(4) by (rule gen_exec [OF inv])
      moreover have "last (calls l') = Execute a (extract_sql u content)" using c(4) by simp
      ultimately show ?thesis using c(1-3) by simp
    qed
  next
    fix a and l :: locals
    assume "?I a l"
    then show "?adj (snd (Inr None :: 'a outcome, calls l))" by simp
  next
    fix a and l :: locals and df g l'
    assume inv: "?I a l" and tb: "try_block u self w q a l = (Inr (df, g), l')"
    from try_block_success [OF tb]
    have c: "calls l' = calls l @ [Generate a (?prompt l), Execute a g]" by blast
    have "?adj (calls l')" unfolding c by (rule gen_exec [OF inv])
    then show "?adj (snd (Inr (Some (df, g)), calls l'))" by (simp only: snd_conv)
  next
    fix a and l :: locals and msg l'
    assume inv: "?I a l" and tb: "try_block u self w q a l = (Inl (SafetyViolationError msg), l')"
    from try_block_fatal [OF tb]
    have c: "calls l' = calls l @ [Generate a (?prompt l)]" by blast
    have "?adj (calls l')" unfolding c by (rule gen [OF inv])
    then show "?adj (snd (Inl (SafetyViolationError msg) :: 'a outcome, calls l'))"
      by (simp only: snd_conv)
  next
    fix l :: locals and msg l'
    assume inv: "?I N l" and tb: "try_block u self w q N l = (Inl (Exception msg), l')"
    from try_block_retryable [OF tb]
    have "calls l' = calls l @ [Generate N (?prompt l)] \<or>
          (\<exists>g. calls l' = calls l @ [Generate N (?prompt l), Execute N g])" by blast
    then have "?adj (calls l')"
    proof
      assume c: "calls l' = calls l @ [Generate N (?prompt l)]"
      show ?thesis unfolding c by (rule gen [OF inv])
    next
      assume "\<exists>g. calls l' = calls l @ [Generate N (?prompt l), Execute N g]"
      then obtain g where c: "calls l' = calls l @ [Generate N (?prompt l), Execute N g]" ..
      show ?thesis unfolding c by (rule gen_exec [OF inv])
    qed
    then show "?adj (snd (Inl (Exception (exhausted_message N msg)) :: 'a outcome, calls l'))"
      by (simp only: snd_conv)
  qed simp
  with assms show ?thesis unfolding execute_with_retry_def by blast
qed

theorem healing_feeds_forward_witness:
  "snd (execute_with_retry ascii example_agent heals_on_second (lit ''names?'') 3) =
     [Generate 1 (build_initial_prompt example_agent (lit ''names?''))] @
     Execute 1 (lit ''SELECT nme FROM t'') #
     Generate 2 (build_healing_prompt example_agent (lit ''names?'') (lit ''SELECT nme FROM t'')
                   (sql_error (lit ''Invalid column name''))) #
     [Execute 2 (lit ''SELECT name FROM t'')] \<and>
   (2::int) = 1 + 1 \<and>
   (\<exists>e. read_sql heals_on_second 1 (lit ''SELECT nme FROM t'') = Inl e \<and>
      (if (lit ''SELECT nme FROM t'') \<noteq> []
       then build_healing_prompt example_agent (lit ''names?'') (lit ''SELECT nme FROM t'')
              (sql_error (lit ''Invalid column name'')) =
            build_healing_prompt example_agent (lit ''names?'') (lit ''SELECT nme FROM t'') (sql_error e) \<and>
            contains (lit ''SELECT nme FROM t'')
              (build_healing_prompt example_agent (lit ''names?'') (lit ''SELECT nme FROM t'')
                 (sql_error (lit ''Invalid column name''))) \<and>
            contains (sql_error e)
              (build_healing_prompt example_agent (lit ''names?'') (lit ''SELECT nme FROM t'')
                 (sql_error (lit ''Invalid column name'')))
       else build_healing_prompt example_agent (lit ''names?'') (lit ''SELECT nme FROM t'')
              (sql_error (lit ''Invalid column name'')) =
            build_initial_prompt example_agent (lit ''names?'')))"
proof -
  have h: "snd (execute_with_retry ascii example_agent heals_on_second (lit ''names?'') 3) =
     [Generate 1 (build_initial_prompt example_agent (lit ''names?''))] @
     Execute 1 (lit ''SELECT nme FROM t'') #
     Generate 2 (build_healing_prompt example_agent (lit ''names?'') (lit ''SELECT nme FROM t'')
                   (sql_error (lit ''Invalid column name''))) #
     [Execute 2 (lit ''SELECT name FROM t'')]"
    by code_simp
  from healing_feeds_forward [OF h] h show ?thesis by blast
qed

text \<open>
  The claim as stated fails in two ways. When attempt 2 fails in generation, the
  prompt of attempt 3 holds the query text of attempt 1. When the query text of
  attempt 1 is empty, the prompt of attempt 2 is the initial prompt and does not
  hold the error message of attempt 1.
\<close>

theorem healing_feeds_forward_counterexample:
  "snd (execute_with_retry ascii example_agent fails_between (lit ''names?'') 3) =
     [Generate 1 (build_initial_prompt example_agent (lit ''names?'')),
      Execute 1 (lit ''SELECT a FROM t''),
      Generate 2 (build_healing_prompt example_agent (lit ''names?'') (lit ''SELECT a FROM t'')
                    (lit ''SQL Error: Invalid object name'')),
      Generate 3 (build_healing_prompt example_agent (lit ''names?'') (lit ''SELECT a FROM t'')
                    (lit ''timed out'')),
      Execute 3 (lit ''SELECT b FROM t'')] \<and>
   contains (lit ''SELECT a FROM t'')
     (build_healing_prompt example_agent (lit ''names?'') (lit ''SELECT a FROM t'') (lit ''timed out'')) \<and>
   snd (execute_with_retry ascii example_agent empty_reply (lit ''names?'') 3) =
     [Generate 1 (build_initial_prompt example_agent (lit ''names?'')),
      Execute 1 [],
      Generate 2 (build_initial_prompt example_agent (lit ''names?'')),
      Execute 2 (lit ''SELECT 1'')] \<and>
   read_sql empty_reply 1 [] = Inl (lit ''empty statement'') \<and>
   \<not> contains (lit ''SQL Error: empty statement'') (build_initial_prompt example_agent (lit ''names?''))"
  by code_simp

section \<open>Properties of the validator\<close>

lemma match_here_word:
  assumes "kw \<noteq> []" "\<forall>c\<in>set kw. word_char u c"
  shows "match_here u kw prev s \<longleftrightarrow>
           \<not> prev \<and> prefix kw s \<and> \<not> starts_with_word_char u (drop (length kw) s)"
proof (cases "prefix kw s")
  case False
  then show ?thesis by (simp add: match_here_def)
next
  case True
  then obtain r where s: "s = kw @ r" by (auto simp: prefix_def)
  from assms obtain c cs where kw: "kw = c # cs" by (cases kw) auto
  have "starts_with_word_char u s" using assms s kw by (simp add: starts_with_word_char_def)
  moreover have "word_char u (last kw)" using assms by simp
  ultimately show ?thesis using True assms(1) by (auto simp: match_here_def word_boundary_def)
qed

lemma search_from_iff:
  assumes "kw \<noteq> []" "\<forall>c\<in>set kw. word_char u c"
  shows "search_from u kw prev s \<longleftrightarrow> (\<exists>i\<le>length s. found_at u kw prev s i)"
proof (induction s arbitrary: prev)
  case Nil
  then show ?case using assms by (auto simp: match_here_word found_at_def)
next
  case (Cons c cs)
  have step: "found_at u kw prev (c # cs) (Suc j) = found_at u kw (word_char u c) cs j" for j
    by (cases j) (simp_all add: found_at_def)
  have zero: "found_at u kw prev (c # cs) 0 = match_here u kw prev (c # cs)"
    using assms by (auto simp: match_here_word found_at_def)
  have "(\<exists>i\<le>length (c # cs). found_at u kw prev (c # cs) i) \<longleftrightarrow>
        found_at u kw prev (c # cs) 0 \<or> (\<exists>j\<le>length cs. found_at u kw prev (c # cs) (Suc j))"
  proof
    assume "\<exists>i\<le>length (c # cs). found_at u kw prev (c # cs) i"
    then obtain i where i: "i \<le> length (c # cs)" "found_at u kw prev (c # cs) i" by blast
    show "found_at u kw prev (c # cs) 0 \<or>
          (\<exists>j\<le>length cs. found_at u kw prev (c # cs) (Suc j))"
    proof (cases i)
      case 0
      with i show ?thesis by simp
    next
      case (Suc j)
      with i have "j \<le> length cs" "found_at u kw prev (c # cs) (Suc j)" by simp_all
      then show ?thesis by blast
    qed
  next
    assume "found_at u kw prev (c # cs) 0 \<or>
            (\<exists>j\<le>length cs. found_at u kw prev (c # cs) (Suc j))"
    then show "\<exists>i\<le>length (c # cs). found_at u kw prev (c # cs) i"
    proof
      assume "found_at u kw prev (c # cs) 0"
      then show ?thesis by blast
    next
      assume "\<exists>j\<le>length cs. found_at u kw prev (c # cs) (Suc j)"
      then obtain j where "j \<le> length cs" "found_at u kw prev (c # cs) (Suc j)" by blast
      then have "Suc j \<le> length (c # cs)" by simp
      with \<open>found_at u kw prev (c # cs) (Suc j)\<close> show ?thesis by blast
    qed
  qed
  then show ?case using Cons.IH [of "word_char u c"] step zero by simp
qed

lemma starts_with_word_char_drop:
  "starts_with_word_char u (drop n s) \<longleftrightarrow> n < length s \<and> word_char u (s ! n)"
proof (cases "n < length s")
  case True
  then have "drop n s = s ! n # drop (Suc n) s" by (simp add: Cons_nth_drop_Suc)
  with True show ?thesis by (simp add: starts_with_word_char_def)
next
  case False
  then show ?thesis by (simp add: starts_with_word_char_def)
qed

lemma prefix_drop_iff:
  assumes "i \<le> length s"
  shows "prefix kw (drop i s) \<longleftrightarrow>
           i + length kw \<le> length s \<and> take (length kw) (drop i s) = kw"
proof
  assume "prefix kw (drop i s)"
  then obtain zs where z: "drop i s = kw @ zs" by (auto simp: prefix_def)
  then have "length (drop i s) = length kw + length zs" by simp
  with assms have "i + length kw \<le> length s" by simp
  moreover from z have "take (length kw) (drop i s) = kw" by simp
  ultimately show "i + length kw \<le> length s \<and> take (length kw) (drop i s) = kw" by simp
next
  assume "i + length kw \<le> length s \<and> take (length kw) (drop i s) = kw"
  then have "drop i s = kw @ drop (length kw) (drop i s)"
    by (metis append_take_drop_id)
  then show "prefix kw (drop i s)" by (metis prefixI)
qed

lemma found_at_occurs:
  assumes "i \<le> length t"
  shows "found_at u kw False t i \<longleftrightarrow> occurs_at u kw t i"
  using assms
  by (auto simp: found_at_def occurs_at_def prefix_drop_iff starts_with_word_char_drop)

lemma re_search_occurs:
  assumes "kw \<noteq> []" "\<forall>c\<in>set kw. word_char u c"
  shows "re_search u kw t \<longleftrightarrow> (\<exists>i\<in>{..length t}. occurs_at u kw t i)"
  unfolding re_search_def search_from_iff [OF assms]
  using found_at_occurs [of _ t u kw] by auto

lemma keywords_not_empty: "kw \<in> set DESTRUCTIVE_KEYWORDS \<Longrightarrow> kw \<noteq> []"
  by (auto simp: DESTRUCTIVE_KEYWORDS_def lit_def)

lemma validate_keywords_ok_iff:
  "validate_keywords u ks t = Inr True \<longleftrightarrow> (\<forall>k\<in>set ks. \<not> re_search u k t)"
  by (induction ks) auto

lemma validate_keywords_first:
  "\<forall>k\<in>set before. \<not> re_search u k t \<Longrightarrow> re_search u kw t \<Longrightarrow>
   validate_keywords u (before @ kw # after) t =
     Inl (SafetyViolationError (violation_message kw))"
  by (induction before) auto

lemma re_search_keyword:
  assumes "keyword_letters u" "kw \<in> set DESTRUCTIVE_KEYWORDS"
  shows "re_search u kw (str_upper u query) \<longleftrightarrow> keyword_occurs u kw query"
proof -
  from assms have "\<forall>c\<in>set kw. word_char u c" by (simp add: keyword_letters_def)
  with keywords_not_empty [OF assms(2)] show ?thesis
    unfolding keyword_occurs_def by (rule re_search_occurs)
qed

lemma validate_sql_safety_ok_iff:
  "keyword_letters u \<Longrightarrow>
   validate_sql_safety u query = Inr True \<longleftrightarrow> \<not> contains_blocked_keyword u query"
  by (simp add: validate_sql_safety_def validate_keywords_ok_iff contains_blocked_keyword_def
        re_search_keyword)

lemma violation_message_names_keyword: "contains kw (violation_message kw)"
  unfolding violation_message_def
  using contains_append [of kw "[0x1F6AB] @
     lit '' SAFETY VIOLATION: Query contains destructive keyword '' @ [0x27]"]
  by (simp del: append_Cons)

lemma occurrence_in_place:
  assumes R: "upper_in_place u t"
  shows "keyword_occurs u kw t \<longleftrightarrow> whole_word_match u kw t"
proof -
  let ?T = "str_upper u t"
  from R have len: "length ?T = length t"
    and cls: "\<And>i. i < length t \<Longrightarrow> word_char u (?T ! i) = word_char u (t ! i)"
    and stretch: "\<And>i n. i + n \<le> length t \<Longrightarrow>
                    str_upper u (take n (drop i t)) = take n (drop i ?T)"
    by (simp_all add: upper_in_place_def)
  show ?thesis
  proof
    assume "keyword_occurs u kw t"
    then obtain i where i: "occurs_at u kw ?T i"
      by (auto simp: keyword_occurs_def)
    then have fit: "i + length kw \<le> length t" using len by (simp add: occurs_at_def)
    have "match_in_text u kw t i (length kw)"
      unfolding match_in_text_def
    proof (intro conjI)
      show "i + length kw \<le> length t" by (rule fit)
      show "str_upper u (take (length kw) (drop i t)) = kw"
        using stretch [OF fit] i by (simp add: occurs_at_def)
      show "i = 0 \<or> \<not> word_char u (t ! (i - 1))"
      proof (cases "i = 0")
        case False
        then have "i - 1 < length t" using fit by simp
        from cls [OF this] i False show ?thesis by (simp add: occurs_at_def)
      qed simp
      show "i + length kw = length t \<or> \<not> word_char u (t ! (i + length kw))"
      proof (cases "i + length kw = length t")
        case False
        then have "i + length kw < length t" using fit by simp
        from cls [OF this] i False len show ?thesis by (simp add: occurs_at_def)
      qed simp
    qed
    moreover have "i \<le> length t" "length kw \<le> length t" using fit by simp_all
    ultimately show "whole_word_match u kw t" by (auto simp: whole_word_match_def)
  next
    assume "whole_word_match u kw t"
    then obtain i n where m: "match_in_text u kw t i n"
      by (auto simp: whole_word_match_def)
    then have fit: "i + n \<le> length t" by (simp add: match_in_text_def)
    from m stretch [OF fit] have kw: "take n (drop i ?T) = kw" by (simp add: match_in_text_def)
    then have n: "length kw = n" using fit len by auto
    have "occurs_at u kw ?T i"
      unfolding occurs_at_def
    proof (intro conjI)
      show "i + length kw \<le> length ?T" using fit n len by simp
      show "take (length kw) (drop i ?T) = kw" using kw n by simp
      show "i = 0 \<or> \<not> word_char u (?T ! (i - 1))"
      proof (cases "i = 0")
        case False
        then have "i - 1 < length t" using fit by simp
        from cls [OF this] m False show ?thesis by (simp add: match_in_text_def)
      qed simp
      show "i + length kw = length ?T \<or> \<not> word_char u (?T ! (i + length kw))"
      proof (cases "i + n = length t")
        case False
        then have "i + n < length t" using fit by simp
        from cls [OF this] m False n show ?thesis by (simp add: match_in_text_def)
      next
        case True
        then show ?thesis using n len by simp
      qed
    qed
    moreover have "i \<le> length ?T" using fit len by simp
    ultimately show "keyword_occurs u kw t" by (auto simp: keyword_occurs_def)
  qed
qed

lemma blocked_keyword_in_place:
  "upper_in_place u query \<Longrightarrow>
   contains_blocked_keyword u query \<longleftrightarrow> text_has_blocked_keyword u query"
  by (simp add: contains_blocked_keyword_def text_has_blocked_keyword_def occurrence_in_place)

lemma word_char_ascii_upper: "word_char ascii (ascii_upper c) = word_char ascii c"
  by (auto simp: ascii_def ascii_upper_def)

lemma upper_in_place_ascii: "upper_in_place ascii query"
proof -
  have up: "str_upper ascii = map ascii_upper" by (simp add: ascii_def)
  show ?thesis
    unfolding upper_in_place_def up
    by (simp add: take_map drop_map word_char_ascii_upper)
qed

lemma keyword_letters_ascii: "keyword_letters ascii"
  by code_simp

text \<open>
  C8, as amended. \<^verbatim>\<open>validate_sql_safety\<close> returns \<^verbatim>\<open>True\<close> exactly when the
  uppercased text, \<^verbatim>\<open>sql.upper()\<close>, holds no occurrence of a blocked keyword that
  is delimited on both sides by a word boundary. On a text that uppercasing
  leaves in place, as every ASCII text, that is exactly when the text itself
  holds no such occurrence, case ignored. When the uppercased text holds an
  occurrence, the function raises a \<^verbatim>\<open>SafetyViolationError\<close> whose text names the
  first keyword of the list that occurs. The loop over the keywords stops at that
  keyword: the result is the same whatever keywords come later in the list.
  Uppercasing and word characters are those of the runtime; of them the proof
  uses only that the letters of the keywords are word characters.
\<close>

theorem validate_sql_safety_spec:
  assumes "keyword_letters u"
  shows "(validate_sql_safety u query = Inr True \<longleftrightarrow> \<not> contains_blocked_keyword u query) \<and>
   (upper_in_place u query \<longrightarrow>
      (validate_sql_safety u query = Inr True \<longleftrightarrow> \<not> text_has_blocked_keyword u query)) \<and>
   (contains_blocked_keyword u query \<longrightarrow>
      (\<exists>before keyword after.
          DESTRUCTIVE_KEYWORDS = before @ keyword # after \<and>
          (\<forall>k\<in>set before. \<not> keyword_occurs u k query) \<and> keyword_occurs u keyword query \<and>
          validate_sql_safety u query = Inl (SafetyViolationError (violation_message keyword)) \<and>
          contains keyword (violation_message keyword))) \<and>
   ((\<forall>k\<in>set earlier. \<not> re_search u k t) \<and> re_search u keyword' t \<longrightarrow>
       validate_keywords u (earlier @ keyword' # later) t =
         Inl (SafetyViolationError (violation_message keyword')))"
proof (intro conjI impI)
  show "validate_sql_safety u query = Inr True \<longleftrightarrow> \<not> contains_blocked_keyword u query"
    by (rule validate_sql_safety_ok_iff [OF assms])
next
  assume "upper_in_place u query"
  then show "validate_sql_safety u query = Inr True \<longleftrightarrow> \<not> text_has_blocked_keyword u query"
    by (simp add: validate_sql_safety_ok_iff [OF assms] blocked_keyword_in_place)
next
  assume "contains_blocked_keyword u query"
  then have "\<exists>k\<in>set DESTRUCTIVE_KEYWORDS. keyword_occurs u k query"
    by (simp add: contains_blocked_keyword_def)
  then obtain before keyword after where d: "DESTRUCTIVE_KEYWORDS = before @ keyword # after"
    "keyword_occurs u keyword query" "\<forall>k\<in>set before. \<not> keyword_occurs u k query"
    by (auto simp: split_list_first_prop_iff)
  have mem: "keyword \<in> set DESTRUCTIVE_KEYWORDS" "set before \<subseteq> set DESTRUCTIVE_KEYWORDS"
    unfolding d(1) by auto
  have "re_search u keyword (str_upper u query)"
    using d(2) mem(1) by (simp add: re_search_keyword [OF assms])
  moreover have "\<forall>k\<in>set before. \<not> re_search u k (str_upper u query)"
    using d(3) mem(2) by (auto simp: re_search_keyword [OF assms])
  ultimately have
    "validate_sql_safety u query = Inl (SafetyViolationError (violation_message keyword))"
    unfolding validate_sql_safety_def d(1) by (intro validate_keywords_first)
  with d violation_message_names_keyword [of keyword]
  show "\<exists>before keyword after.
          DESTRUCTIVE_KEYWORDS = before @ keyword # after \<and>
          (\<forall>k\<in>set before. \<not> keyword_occurs u k query) \<and> keyword_occurs u keyword query \<and>
          validate_sql_safety u query = Inl (SafetyViolationError (violation_message keyword)) \<and>
          contains keyword (violation_message keyword)"
    by blast
next
  assume "(\<forall>k\<in>set earlier. \<not> re_search u k t) \<and> re_search u keyword' t"
  then show "validate_keywords u (earlier @ keyword' # later) t =
         Inl (SafetyViolationError (violation_message keyword'))"
    by (intro validate_keywords_first) auto
qed

theorem validate_sql_safety_spec_witness:
  "keyword_letters ascii \<and>
   upper_in_place ascii (lit ''DELETE FROM t; drop table t'') \<and>
   contains_blocked_keyword ascii (lit ''DELETE FROM t; drop table t'') \<and>
   text_has_blocked_keyword ascii (lit ''DELETE FROM t; drop table t'') \<and>
   validate_sql_safety ascii (lit ''DELETE FROM t; drop table t'') \<noteq> Inr True \<and>
   (\<exists>before keyword after.
      DESTRUCTIVE_KEYWORDS = before @ keyword # after \<and>
      keyword_occurs ascii keyword (lit ''DELETE FROM t; drop table t'') \<and>
      validate_sql_safety ascii (lit ''DELETE FROM t; drop table t'') =
        Inl (SafetyViolationError (violation_message keyword)) \<and>
      contains keyword (violation_message keyword)) \<and>
   \<not> re_search ascii (lit ''DROP'') (lit ''DELETE FROM T'') \<and>
   re_search ascii (lit ''DELETE'') (lit ''DELETE FROM T'') \<and>
   validate_keywords ascii ([lit ''DROP''] @ lit ''DELETE'' # [lit ''UPDATE''])
       (lit ''DELETE FROM T'') =
     Inl (SafetyViolationError (violation_message (lit ''DELETE'')))"
proof -
  have h0: "keyword_letters ascii" by code_simp
  have h1: "contains_blocked_keyword ascii (lit ''DELETE FROM t; drop table t'')" by code_simp
  have h2: "\<not> re_search ascii (lit ''DROP'') (lit ''DELETE FROM T'')" by code_simp
  have h3: "re_search ascii (lit ''DELETE'') (lit ''DELETE FROM T'')" by code_simp
  have h5: "upper_in_place ascii (lit ''DELETE FROM t; drop table t'')"
    by (rule upper_in_place_ascii)
  from h2 have h4: "\<forall>k\<in>set [lit ''DROP'']. \<not> re_search ascii k (lit ''DELETE FROM T'')"
    by simp
  from validate_sql_safety_spec [OF h0, of "lit ''DELETE FROM t; drop table t''"
      "[lit ''DROP'']" "lit ''DELETE FROM T''" "lit ''DELETE''" "[lit ''UPDATE'']"] h1 h3 h4 h5
  have "validate_sql_safety ascii (lit ''DELETE FROM t; drop table t'') \<noteq> Inr True"
    and "text_has_blocked_keyword ascii (lit ''DELETE FROM t; drop table t'')"
    and "\<exists>before keyword after.
      DESTRUCTIVE_KEYWORDS = before @ keyword # after \<and>
      keyword_occurs ascii keyword (lit ''DELETE FROM t; drop table t'') \<and>
      validate_sql_safety ascii (lit ''DELETE FROM t; drop table t'') =
        Inl (SafetyViolationError (violation_message keyword)) \<and>
      contains keyword (violation_message keyword)"
    and "validate_keywords ascii ([lit ''DROP''] @ lit ''DELETE'' # [lit ''UPDATE''])
       (lit ''DELETE FROM T'') =
     Inl (SafetyViolationError (violation_message (lit ''DELETE'')))"
    by blast+
  with h0 h1 h2 h3 h5 show ?thesis by blast
qed

text \<open>
  The claim as stated, about occurrences in the text itself, fails where
  uppercasing moves a word boundary. In \<^verbatim>\<open>DROP\<close>, a combining iota subscript
  (U+0345) and \<^verbatim>\<open> TABLE t\<close>, the first four characters are the keyword
  \<^verbatim>\<open>DROP\<close>, delimited by the start of the text and by a character that is not a
  word character. Uppercased, the iota subscript is a capital iota, a letter,
  the keyword is no longer delimited, and the function returns \<^verbatim>\<open>True\<close>.
\<close>

theorem validate_sql_safety_spec_counterexample:
  "match_in_text ascii_and_iota (lit ''DROP'') (lit ''DROP'' @ [0x345] @ lit '' TABLE t'') 0 4 \<and>
   validate_sql_safety ascii_and_iota (lit ''DROP'' @ [0x345] @ lit '' TABLE t'') = Inr True"
  by code_simp

text \<open>
  C1, as amended. No text whose uppercase holds a blocked keyword as a whole word
  is ever passed to \<^verbatim>\<open>execute_query\<close>: every executor call of every run, whatever
  the collaborators answer and whatever the budget, is made on a text without
  one. When the text passed is one that uppercasing leaves in place, as every
  ASCII text, the text itself holds no whole-word match of a blocked keyword,
  case ignored. This holds for every uppercasing and every classification of
  characters in which the letters of the keywords are word characters.
\<close>

theorem safety_is_absolute:
  assumes "keyword_letters u"
  shows "\<forall>c\<in>set (snd (execute_with_retry u self w q N)).
     \<forall>k s. c = Execute k s \<longrightarrow>
       \<not> contains_blocked_keyword u s \<and>
       (upper_in_place u s \<longrightarrow> \<not> text_has_blocked_keyword u s)"
proof -
  let ?safe = "\<lambda>cs. \<forall>c\<in>set cs. \<forall>k s. c = Execute k s \<longrightarrow> validate_sql_safety u s = Inr True"
  have "?safe (snd (retry_loop u self w q N 1
              \<lparr>previous_sql = None, error_message = None, sql = None, calls = []\<rparr>))"
  proof (rule retry_loop_rule [where I = "\<lambda>a l. ?safe (calls l)" and R = "\<lambda>x. ?safe (snd x)"])
    fix a and l :: locals and msg l'
    assume "?safe (calls l)" "try_block u self w q a l = (Inl (Exception msg), l')"
    then show "?safe (calls (l'\<lparr>error_message := Some msg, previous_sql := sql l'\<rparr>))"
      using try_block_retryable [of u self w q a l msg l'] by auto
  next
    fix a and l :: locals
    assume "?safe (calls l)"
    then show "?safe (snd (Inr None :: 'a outcome, calls l))" by simp
  next
    fix a and l :: locals and df g l'
    assume "?safe (calls l)" "try_block u self w q a l = (Inr (df, g), l')"
    then show "?safe (snd (Inr (Some (df, g)), calls l'))"
      using try_block_success [of u self w q a l df g l'] by auto
  next
    fix a and l :: locals and msg l'
    assume "?safe (calls l)" "try_block u self w q a l = (Inl (SafetyViolationError msg), l')"
    then show "?safe (snd (Inl (SafetyViolationError msg) :: 'a outcome, calls l'))"
      using try_block_fatal [of u self w q a l msg l'] by auto
  next
    fix l :: locals and msg l'
    assume "?safe (calls l)" "try_block u self w q N l = (Inl (Exception msg), l')"
    then show "?safe (snd (Inl (Exception (exhausted_message N msg)) :: 'a outcome, calls l'))"
      using try_block_retryable [of u self w q N l msg l'] by auto
  qed simp
  then have "\<forall>c\<in>set (snd (execute_with_retry u self w q N)).
     \<forall>k s. c = Execute k s \<longrightarrow> \<not> contains_blocked_keyword u s"
    by (simp add: execute_with_retry_def validate_sql_safety_ok_iff [OF assms])
  then show ?thesis using blocked_keyword_in_place [of u] by blast
qed

theorem safety_is_absolute_witness:
  "keyword_letters ascii \<and>
   Execute 1 (lit ''SELECT name FROM t'') \<in>
     set (snd (execute_with_retry ascii example_agent backend_ok (lit ''names?'') 3)) \<and>
   upper_in_place ascii (lit ''SELECT name FROM t'') \<and>
   \<not> contains_blocked_keyword ascii (lit ''SELECT name FROM t'') \<and>
   \<not> text_has_blocked_keyword ascii (lit ''SELECT name FROM t'')"
proof -
  have h0: "keyword_letters ascii" by code_simp
  have h: "Execute 1 (lit ''SELECT name FROM t'') \<in>
     set (snd (execute_with_retry ascii example_agent backend_ok (lit ''names?'') 3))"
    by code_simp
  have h1: "upper_in_place ascii (lit ''SELECT name FROM t'')"
    by (rule upper_in_place_ascii)
  from safety_is_absolute [OF h0, of example_agent backend_ok "lit ''names?''" 3] h h0 h1
  show ?thesis by blast
qed

text \<open>
  The claim as stated, about matches in the text itself, fails on a run whose
  backend answers \<^verbatim>\<open>DROP\<close>, a combining iota subscript (U+0345) and
  \<^verbatim>\<open> TABLE t\<close>. The text holds the keyword \<^verbatim>\<open>DROP\<close> as a whole word: the iota
  subscript that follows it is not a word character. Uppercased it is a capital
  iota, a letter, so the validator finds no whole word and the text is executed.
\<close>

theorem safety_is_absolute_counterexample:
  "match_in_text ascii_and_iota (lit ''DROP'') (lit ''DROP'' @ [0x345] @ lit '' TABLE t'') 0 4 \<and>
   execute_with_retry ascii_and_iota example_agent iota_subscript_reply (lit ''names?'') 3 =
     (Inr (Some ([], lit ''DROP'' @ [0x345] @ lit '' TABLE t'')),
      [Generate 1 (build_initial_prompt example_agent (lit ''names?'')),
       Execute 1 (lit ''DROP'' @ [0x345] @ lit '' TABLE t'')])"
  by code_simp

section \<open>Properties of the extraction\<close>

text \<open>First occurrences of a separator.\<close>

lemma strip_rstrip: "strip u s = rstrip u (dropWhile (space_char u) s)"
  by (simp add: strip_def rstrip_def)

lemma before_first_decomp: "before_first sep s = Some h \<Longrightarrow> \<exists>t. s = h @ sep @ t"
proof (induction s arbitrary: h)
  case Nil
  then show ?case by (auto split: if_splits)
next
  case (Cons c cs)
  show ?case
  proof (cases "prefix sep (c # cs)")
    case True
    with Cons.prems show ?thesis by (auto simp: prefix_def)
  next
    case False
    with Cons.prems obtain h0 where "before_first sep cs = Some h0" "h = c # h0" by auto
    with Cons.IH [of h0] show ?thesis by auto
  qed
qed

lemma before_first_least:
  "before_first sep s = Some h \<Longrightarrow> s = h' @ sep @ t' \<Longrightarrow> length h \<le> length h'"
proof (induction s arbitrary: h h')
  case Nil
  then show ?case by (auto split: if_splits)
next
  case (Cons c cs)
  show ?case
  proof (cases "prefix sep (c # cs)")
    case True
    with Cons.prems(1) have "h = []" by simp
    then show ?thesis by simp
  next
    case False
    with Cons.prems(1) obtain h0 where h0: "before_first sep cs = Some h0" "h = c # h0" by auto
    from False Cons.prems(2) have "h' \<noteq> []" by (auto simp: prefix_def)
    then obtain h'' where "h' = c # h''" "cs = h'' @ sep @ t'"
      using Cons.prems(2) by (cases h') auto
    with Cons.IH [OF h0(1)] h0(2) show ?thesis by simp
  qed
qed

lemma before_first_None_iff:
  "before_first sep s = None \<longleftrightarrow> (\<forall>h t. s \<noteq> h @ sep @ t)"
  using before_first_append [of sep] before_first_decomp [of sep s]
  by (metis not_Some_eq)

lemma before_first_SomeI:
  assumes "s = h @ sep @ t" and "\<And>h' t'. s = h' @ sep @ t' \<Longrightarrow> length h \<le> length h'"
  shows "before_first sep s = Some h"
proof -
  from assms(1) before_first_append [of sep h t] obtain h2 where h2: "before_first sep s = Some h2"
    by auto
  from before_first_decomp [OF h2] obtain t2 where t2: "s = h2 @ sep @ t2" by blast
  have "length h2 \<le> length h" using before_first_least [OF h2 assms(1)] .
  moreover have "length h \<le> length h2" using assms(2) [OF t2] .
  ultimately have "length h = length h2" by simp
  with assms(1) t2 have "h = h2" by (metis append_eq_append_conv)
  with h2 show ?thesis by simp
qed

lemma backtick_not_space: "extraction_tables u \<Longrightarrow> \<not> space_char u 0x60"
  by (simp add: extraction_tables_def)

lemma newline_is_space: "extraction_tables u \<Longrightarrow> space_char u 0x0A"
  by (simp add: extraction_tables_def)

lemma fence_simps: "fence \<noteq> []" "length fence = 3" "hd fence = 0x60"
  by (simp_all add: fence_def)

lemma prefix_fence_Cons: "prefix fence (c # cs) \<Longrightarrow> c = 0x60"
  by (simp add: fence_def)

lemma before_first_fence_Nil [simp]: "before_first fence [] = None"
  by (simp add: fence_def)

lemma before_first_fence_skip:
  "c \<noteq> 0x60 \<Longrightarrow> before_first fence (c # cs) = map_option ((#) c) (before_first fence cs)"
  using prefix_fence_Cons [of c cs] by auto

lemma before_first_Cons_no_prefix:
  "\<not> prefix sep (c # cs) \<Longrightarrow> before_first sep (c # cs) = map_option ((#) c) (before_first sep cs)"
  by simp

declare before_first.simps(2) [simp del]

lemma before_first_fence_space:
  "extraction_tables u \<Longrightarrow> space_char u c \<Longrightarrow>
   before_first fence (c # cs) = map_option ((#) c) (before_first fence cs)"
  using backtick_not_space [of u] by (intro before_first_fence_skip) auto

lemma before_first_fence_spaces:
  assumes T: "extraction_tables u"
  shows "\<forall>x\<in>set ws. space_char u x \<Longrightarrow>
   before_first fence (ws @ s) = map_option ((@) ws) (before_first fence s)"
proof (induction ws)
  case Nil
  show ?case by (cases "before_first fence s") simp_all
next
  case (Cons a ws)
  have "before_first fence ((a # ws) @ s) = map_option ((#) a) (before_first fence (ws @ s))"
    using Cons.prems by (simp add: before_first_fence_space [OF T])
  with Cons show ?case by (cases "before_first fence s") simp_all
qed

lemma ws_then_fence_iff:
  assumes T: "extraction_tables u"
  shows "ws_then_fence u s \<longleftrightarrow> prefix fence (dropWhile (space_char u) s)"
proof (induction s)
  case Nil
  then show ?case by simp
next
  case (Cons c cs)
  then show ?case using prefix_fence_Cons [of c cs] backtick_not_space [OF T] by auto
qed

lemma rstrip_Nil [simp]: "rstrip u [] = []"
  by (simp add: rstrip_def)

lemma rstrip_spaces: "\<forall>x\<in>set ws. space_char u x \<Longrightarrow> rstrip u ws = []"
  by (simp add: rstrip_def)

lemma rstrip_Cons:
  "rstrip u (c # b) = (if space_char u c \<and> (\<forall>x\<in>set b. space_char u x) then [] else c # rstrip u b)"
  by (auto simp: rstrip_def dropWhile_append dropWhile_eq_Nil_conv)

lemma takeWhile_dropWhile_fence:
  assumes T: "extraction_tables u" and p: "prefix fence (dropWhile (space_char u) s)"
  shows "before_first fence s = Some (takeWhile (space_char u) s)"
proof -
  from p obtain t where "dropWhile (space_char u) s = fence @ t" by (auto simp: prefix_def)
  then have "s = takeWhile (space_char u) s @ fence @ t" by (metis takeWhile_dropWhile_id)
  moreover have "before_first fence (takeWhile (space_char u) s @ fence @ t) =
      map_option ((@) (takeWhile (space_char u) s)) (before_first fence (fence @ t))"
    by (intro before_first_fence_spaces [OF T]) (auto dest: set_takeWhileD)
  moreover have "before_first fence (fence @ t) = Some []"
    by (simp add: before_first_prefix)
  ultimately show ?thesis by simp
qed

lemma lazy_group_eq:
  assumes T: "extraction_tables u"
  shows "lazy_group u acc s = map_option (\<lambda>b. acc @ rstrip u b) (before_first fence s)"
proof (induction s arbitrary: acc)
  case Nil
  then show ?case by (simp add: ws_then_fence_iff [OF T])
next
  case (Cons c cs)
  show ?case
  proof (cases "ws_then_fence u (c # cs)")
    case True
    then have p: "prefix fence (dropWhile (space_char u) (c # cs))"
      using ws_then_fence_iff [OF T, of "c # cs"] by blast
    have "rstrip u (takeWhile (space_char u) (c # cs)) = []"
      by (intro rstrip_spaces) (auto dest: set_takeWhileD)
    with True takeWhile_dropWhile_fence [OF T p] show ?thesis by simp
  next
    case False
    then have np: "\<not> prefix fence (dropWhile (space_char u) (c # cs))"
      using ws_then_fence_iff [OF T, of "c # cs"] by blast
    have nf: "\<not> prefix fence (c # cs)" using False by simp
    have bf: "before_first fence (c # cs) = map_option ((#) c) (before_first fence cs)"
      using nf by (rule before_first_Cons_no_prefix)
    show ?thesis
    proof (cases "before_first fence cs")
      case None
      with False bf Cons.IH [of "acc @ [c]"] show ?thesis by simp
    next
      case (Some b)
      have "\<not> (space_char u c \<and> (\<forall>x\<in>set b. space_char u x))"
      proof
        assume a: "space_char u c \<and> (\<forall>x\<in>set b. space_char u x)"
        from before_first_decomp [OF Some] obtain t where t: "cs = b @ fence @ t" by blast
        have "dropWhile (space_char u) (c # cs) = dropWhile (space_char u) ((c # b) @ fence @ t)"
          using t by simp
        also have "\<dots> = dropWhile (space_char u) (fence @ t)"
          using a by (subst dropWhile_append2) auto
        also have "\<dots> = fence @ t" using backtick_not_space [OF T] by (simp add: fence_def)
        finally have "prefix fence (dropWhile (space_char u) (c # cs))" by (rule prefixI)
        with np show False by contradiction
      qed
      then have "rstrip u (c # b) = c # rstrip u b" by (simp add: rstrip_Cons)
      with False bf Some Cons.IH [of "acc @ [c]"] show ?thesis by simp
    qed
  qed
qed

lemma ws_then_group_eq:
  assumes T: "extraction_tables u"
  shows "ws_then_group u s = map_option (strip u) (before_first fence s)"
proof (induction s)
  case Nil
  then show ?case by (simp add: lazy_group_eq [OF T] fence_simps strip_def)
next
  case (Cons c cs)
  show ?case
  proof (cases "space_char u c")
    case True
    have bf: "before_first fence (c # cs) = map_option ((#) c) (before_first fence cs)"
      by (rule before_first_fence_space [OF T True])
    have lg: "lazy_group u [] (c # cs) = map_option (rstrip u) (before_first fence (c # cs))"
      using lazy_group_eq [OF T, of "[]" "c # cs"] by simp
    have ws: "ws_then_group u (c # cs) =
                (case ws_then_group u cs of Some g \<Rightarrow> Some g | None \<Rightarrow> lazy_group u [] (c # cs))"
      using True by simp
    show ?thesis
    proof (cases "before_first fence cs")
      case None
      with Cons.IH bf show ?thesis unfolding ws lg by simp
    next
      case (Some b)
      have "strip u (c # b) = strip u b" using True by (simp add: strip_def)
      with Some Cons.IH bf show ?thesis unfolding ws by simp
    qed
  next
    case False
    have "map_option (rstrip u) (before_first fence (c # cs)) =
          map_option (strip u) (before_first fence (c # cs))"
    proof (cases "before_first fence (c # cs)")
      case None
      then show ?thesis by simp
    next
      case (Some b)
      have "dropWhile (space_char u) b = b"
      proof (cases b)
        case Nil
        then show ?thesis by simp
      next
        case (Cons x xs)
        with before_first_decomp [OF Some] have "x = c" by auto
        with False Cons show ?thesis by simp
      qed
      with Some show ?thesis by (simp add: strip_rstrip)
    qed
    moreover have "lazy_group u [] (c # cs) = map_option (rstrip u) (before_first fence (c # cs))"
      using lazy_group_eq [OF T, of "[]" "c # cs"] by simp
    moreover have "ws_then_group u (c # cs) = lazy_group u [] (c # cs)"
      using False by simp
    ultimately show ?thesis by simp
  qed
qed

lemma sql_tag_simps: "sql_tag = [115, 113, 108]"
  by (simp add: sql_tag_def lit_def)

lemma tagged_shape:
  assumes T: "extraction_tables u" and tag: "matches_tag u s"
  shows "\<exists>a b c r. s = a # b # c # r \<and> a \<noteq> 0x60 \<and> b \<noteq> 0x60 \<and> c \<noteq> 0x60 \<and>
           \<not> space_char u a \<and> \<not> space_char u b \<and> \<not> space_char u c"
proof -
  from tag have len: "length (take 3 s) = 3"
    unfolding matches_tag_def sql_tag_simps by (auto dest: list_all2_lengthD)
  then obtain a b c r where s: "s = a # b # c # r"
    by (cases s; cases "tl s"; cases "tl (tl s)") auto
  with tag have m: "ignorecase u 115 a" "ignorecase u 113 b" "ignorecase u 108 c"
    by (simp_all add: matches_tag_def sql_tag_simps)
  have "\<forall>p\<in>set [115, 113, 108]. \<forall>c. ignorecase u p c \<longrightarrow> c \<noteq> 0x60 \<and> \<not> space_char u c"
    using T by (simp add: extraction_tables_def sql_tag_simps)
  with m s show ?thesis by simp
qed

lemma tagged_before_first:
  assumes T: "extraction_tables u" and tag: "matches_tag u s"
  shows "before_first fence s = map_option ((@) (take 3 s)) (before_first fence (drop 3 s))"
proof -
  from tagged_shape [OF T tag] obtain a b c r where
    abc: "s = a # b # c # r" "a \<noteq> 0x60" "b \<noteq> 0x60" "c \<noteq> 0x60" by blast
  show ?thesis unfolding abc(1) using abc(2-4)
    by (cases "before_first fence r") (simp_all add: before_first_fence_skip)
qed

lemma tag_then_rest_eq:
  assumes T: "extraction_tables u"
  shows "tag_then_rest u s = map_option (strip u) (before_first fence (untag u s))"
proof (cases "matches_tag u s")
  case True
  then show ?thesis
    using tagged_before_first [OF T True]
    by (cases "before_first fence (drop 3 s)")
       (simp_all add: tag_then_rest_def untag_def ws_then_group_eq [OF T])
next
  case False
  then show ?thesis by (simp add: tag_then_rest_def untag_def ws_then_group_eq [OF T])
qed

lemma untag_None_iff:
  "extraction_tables u \<Longrightarrow>
   before_first fence (untag u r) = None \<longleftrightarrow> before_first fence r = None"
  using tagged_before_first [of u r] by (auto simp: untag_def)

lemma match_block_eq:
  "extraction_tables u \<Longrightarrow> match_block u s =
     (if prefix fence s then map_option (strip u) (before_first fence (untag u (drop 3 s))) else None)"
  by (simp add: match_block_def tag_then_rest_eq)

lemma fenced_body_Cons_no_prefix:
  assumes "\<not> prefix fence (c # cs)"
  shows "fenced_body u (c # cs) = fenced_body u cs"
  using before_first_Cons_no_prefix [OF assms]
  by (cases "before_first fence cs") (simp_all add: fenced_body_def)

lemma fenced_body_prefix:
  assumes "prefix fence s"
  shows "fenced_body u s = before_first fence (untag u (drop 3 s))"
  using before_first_prefix [OF assms] by (simp add: fenced_body_def fence_simps)

lemma fenced_body_two_fences:
  assumes T: "extraction_tables u" and some: "fenced_body u s = Some b"
  shows "\<exists>x y z. s = x @ fence @ y @ fence @ z"
proof -
  from some obtain pre where pre: "before_first fence s = Some pre"
    and b: "before_first fence (untag u (drop (length pre + length fence) s)) = Some b"
    by (auto simp: fenced_body_def split: option.splits)
  from before_first_decomp [OF pre] obtain t where t: "s = pre @ fence @ t" by blast
  then have "drop (length pre + length fence) s = t" by simp
  with b have "before_first fence t \<noteq> None" using untag_None_iff [OF T, of t] by auto
  then obtain y where "before_first fence t = Some y" by auto
  from before_first_decomp [OF this] obtain z where "t = y @ fence @ z" by blast
  with t show ?thesis by blast
qed

lemma first_code_block_eq:
  assumes T: "extraction_tables u"
  shows "first_code_block u s = map_option (strip u) (fenced_body u s)"
proof (induction s)
  case Nil
  then show ?case by (simp add: match_block_eq [OF T] fenced_body_def fence_simps)
next
  case (Cons c cs)
  show ?case
  proof (cases "prefix fence (c # cs)")
    case False
    with Cons.IH fenced_body_Cons_no_prefix [OF False] show ?thesis
      by (simp add: match_block_eq [OF T])
  next
    case True
    show ?thesis
    proof (cases "fenced_body u (c # cs)")
      case (Some b)
      with True show ?thesis by (simp add: match_block_eq [OF T] fenced_body_prefix)
    next
      case None
      have "fenced_body u cs = None"
      proof (rule ccontr)
        assume "fenced_body u cs \<noteq> None"
        then obtain b where "fenced_body u cs = Some b" by auto
        from fenced_body_two_fences [OF T this] obtain x y z where
          xyz: "cs = x @ fence @ y @ fence @ z" by blast
        have "drop 3 (c # cs) = drop 2 ((x @ fence @ y) @ fence @ z)"
          using xyz by (simp add: numeral_3_eq_3 numeral_2_eq_2)
        also have "\<dots> = drop 2 (x @ fence @ y) @ fence @ z"
          by (simp add: fence_simps)
        finally have "before_first fence (drop 3 (c # cs)) \<noteq> None"
          using before_first_append [of fence "drop 2 (x @ fence @ y)" z] by simp
        then have "before_first fence (untag u (drop 3 (c # cs))) \<noteq> None"
          by (simp add: untag_None_iff [OF T])
        with None True show False by (simp add: fenced_body_prefix)
      qed
      with None True Cons.IH show ?thesis by (simp add: match_block_eq [OF T] fenced_body_prefix)
    qed
  qed
qed

lemma rstrip_decomp: "\<exists>ws. s = rstrip u s @ ws \<and> (\<forall>x\<in>set ws. space_char u x)"
proof -
  have "rev s = takeWhile (space_char u) (rev s) @ dropWhile (space_char u) (rev s)" by simp
  then have "s = rev (dropWhile (space_char u) (rev s)) @ rev (takeWhile (space_char u) (rev s))"
    by (metis rev_append rev_rev_ident)
  moreover have "\<forall>x\<in>set (rev (takeWhile (space_char u) (rev s))). space_char u x"
    by (auto dest: set_takeWhileD)
  ultimately show ?thesis unfolding rstrip_def by blast
qed

lemma strip_decomp:
  "\<exists>ws1 ws2. s = ws1 @ strip u s @ ws2 \<and> (\<forall>x\<in>set ws1. space_char u x) \<and> (\<forall>x\<in>set ws2. space_char u x)"
proof -
  from rstrip_decomp [of "dropWhile (space_char u) s"] obtain ws2 where
    w: "dropWhile (space_char u) s = strip u s @ ws2" "\<forall>x\<in>set ws2. space_char u x"
    by (auto simp: strip_rstrip)
  have "s = takeWhile (space_char u) s @ dropWhile (space_char u) s" by simp
  with w(1) have "s = takeWhile (space_char u) s @ strip u s @ ws2" by simp
  moreover have "\<forall>x\<in>set (takeWhile (space_char u) s). space_char u x" by (auto dest: set_takeWhileD)
  ultimately show ?thesis using w(2) by blast
qed

lemma prefix_fence_spaces:
  assumes T: "extraction_tables u" and ws: "\<forall>x\<in>set ws. space_char u x"
  shows "prefix fence (xs @ ws) \<longleftrightarrow> prefix fence xs"
proof
  assume "prefix fence xs" then show "prefix fence (xs @ ws)" by (simp add: prefix_prefix)
next
  assume "prefix fence (xs @ ws)"
  then have "prefix fence xs \<or> (\<exists>us. fence = xs @ us \<and> prefix us ws)"
    by (simp add: prefix_append)
  then consider "prefix fence xs" | us where "fence = xs @ us" "prefix us ws" "us \<noteq> []"
  proof
    assume "prefix fence xs" then show ?thesis using that(1) by blast
  next
    assume "\<exists>us. fence = xs @ us \<and> prefix us ws"
    then obtain us where us: "fence = xs @ us" "prefix us ws" by blast
    show ?thesis
    proof (cases "us = []")
      case True
      with us(1) have "prefix fence xs" by simp
      then show ?thesis by (rule that(1))
    next
      case False
      with us show ?thesis by (rule that(2))
    qed
  qed
  then show "prefix fence xs"
  proof cases
    case 1 then show ?thesis .
  next
    case 2
    then obtain x us' where x: "us = x # us'" by (cases us) auto
    have "x \<in> set (xs @ x # us')" by simp
    with 2(1) x have "x \<in> set fence" by simp
    then have "x = 0x60" by (simp add: fence_def)
    moreover from 2(2) x have "x \<in> set ws" by (auto simp: prefix_def)
    ultimately show ?thesis using ws backtick_not_space [OF T] by auto
  qed
qed

lemma before_first_fence_trailing:
  assumes T: "extraction_tables u" and ws: "\<forall>x\<in>set ws. space_char u x"
  shows "before_first fence (s @ ws) = before_first fence s"
proof (induction s)
  case Nil
  show ?case using before_first_fence_spaces [OF T ws, of "[]"] by (simp add: fence_simps)
next
  case (Cons c cs)
  show ?case
  proof (cases "prefix fence (c # cs)")
    case True
    then have "prefix fence ((c # cs) @ ws)"
      using prefix_fence_spaces [OF T ws, of "c # cs"] by blast
    with True show ?thesis by (simp add: before_first_prefix)
  next
    case False
    then have "\<not> prefix fence ((c # cs) @ ws)"
      using prefix_fence_spaces [OF T ws, of "c # cs"] by blast
    then have "before_first fence (c # cs @ ws) = map_option ((#) c) (before_first fence (cs @ ws))"
      by (intro before_first_Cons_no_prefix) simp
    with False Cons.IH show ?thesis by (simp add: before_first_Cons_no_prefix)
  qed
qed

lemma tagged_trailing:
  assumes T: "extraction_tables u" and ws: "\<forall>x\<in>set ws. space_char u x"
  shows "matches_tag u (s @ ws) \<longleftrightarrow> matches_tag u s"
proof (cases "3 \<le> length s")
  case True
  then show ?thesis by (simp add: matches_tag_def)
next
  case False
  then have short: "length s < 3" by simp
  have "\<not> matches_tag u s"
  proof
    assume "matches_tag u s"
    from tagged_shape [OF T this] short show False by auto
  qed
  moreover have "\<not> matches_tag u (s @ ws)"
  proof
    assume a: "matches_tag u (s @ ws)"
    from tagged_shape [OF T a] obtain a1 b1 c1 r where
      r: "s @ ws = a1 # b1 # c1 # r" and ns: "\<not> space_char u c1" by blast
    have "(s @ ws) ! 2 = c1" using r by simp
    have "c1 \<in> set ws"
    proof -
      have "(s @ ws) ! 2 = ws ! (2 - length s)" using short by (simp add: nth_append)
      moreover have "length s + length ws = Suc (Suc (Suc (length r)))"
        using arg_cong [OF r, of length] by simp
      then have "2 - length s < length ws" using short by arith
      ultimately show ?thesis using \<open>(s @ ws) ! 2 = c1\<close> nth_mem [of "2 - length s" ws]
        by simp
    qed
    with ws ns show False by blast
  qed
  ultimately show ?thesis by simp
qed

lemma fenced_body_leading:
  assumes T: "extraction_tables u" and ws: "\<forall>x\<in>set ws. space_char u x"
  shows "fenced_body u (ws @ s) = fenced_body u s"
  using before_first_fence_spaces [OF T ws, of s]
  by (cases "before_first fence s") (simp_all add: fenced_body_def)

lemma untag_trailing:
  assumes T: "extraction_tables u" and ws: "\<forall>x\<in>set ws. space_char u x"
  shows "before_first fence (untag u (t @ ws)) = before_first fence (untag u t)"
proof (cases "matches_tag u t")
  case True
  from tagged_shape [OF T True] obtain a b c r where "t = a # b # c # r" by blast
  then have "drop 3 (t @ ws) = drop 3 t @ ws" by simp
  with True show ?thesis
    using tagged_trailing [OF T ws, of t] before_first_fence_trailing [OF T ws, of "drop 3 t"]
    by (simp add: untag_def)
next
  case False
  then show ?thesis
    using tagged_trailing [OF T ws, of t] before_first_fence_trailing [OF T ws, of t]
    by (simp add: untag_def)
qed

lemma fenced_body_trailing:
  assumes T: "extraction_tables u" and ws: "\<forall>x\<in>set ws. space_char u x"
  shows "fenced_body u (s @ ws) = fenced_body u s"
proof (cases "before_first fence s")
  case None
  then show ?thesis
    using before_first_fence_trailing [OF T ws, of s] by (simp add: fenced_body_def)
next
  case (Some pre)
  from before_first_decomp [OF Some] obtain t where t: "s = pre @ fence @ t" by blast
  have "drop (length pre + length fence) (s @ ws) = t @ ws" using t by simp
  moreover have "drop (length pre + length fence) s = t" using t by simp
  ultimately show ?thesis
    using Some before_first_fence_trailing [OF T ws, of s] untag_trailing [OF T ws, of t]
    by (simp add: fenced_body_def)
qed

lemma fenced_body_strip:
  assumes T: "extraction_tables u"
  shows "fenced_body u (strip u r) = fenced_body u r"
proof -
  from strip_decomp [of r u] obtain ws1 ws2 where
    d: "r = ws1 @ strip u r @ ws2" "\<forall>x\<in>set ws1. space_char u x"
      "\<forall>x\<in>set ws2. space_char u x" by blast
  have "fenced_body u r = fenced_body u (ws1 @ strip u r @ ws2)" using d(1) by simp
  also have "\<dots> = fenced_body u (strip u r @ ws2)" by (rule fenced_body_leading [OF T d(2)])
  also have "\<dots> = fenced_body u (strip u r)" by (rule fenced_body_trailing [OF T d(3)])
  finally show ?thesis by simp
qed

lemma rstrip_idem: "rstrip u (rstrip u s) = rstrip u s"
proof (cases "dropWhile (space_char u) (rev s)")
  case Nil
  then show ?thesis by (simp add: rstrip_def)
next
  case (Cons x xs)
  then have "\<not> space_char u x" by (metis hd_dropWhile list.sel(1) list.distinct(1))
  with Cons show ?thesis by (simp add: rstrip_def)
qed

lemma strip_first_not_space: "strip u s = x # xs \<Longrightarrow> \<not> space_char u x"
proof -
  assume a: "strip u s = x # xs"
  obtain ws where ws: "dropWhile (space_char u) s = rstrip u (dropWhile (space_char u) s) @ ws"
    using rstrip_decomp by blast
  with a have "dropWhile (space_char u) s = x # xs @ ws" by (simp add: strip_rstrip)
  then show ?thesis by (metis hd_dropWhile list.sel(1) list.distinct(1))
qed

lemma strip_Nil [simp]: "strip u [] = []"
  by (simp add: strip_def)

lemma strip_idem: "strip u (strip u s) = strip u s"
proof (cases "strip u s")
  case Nil
  then show ?thesis by simp
next
  case (Cons x xs)
  from strip_first_not_space [OF Cons] Cons
  have "dropWhile (space_char u) (strip u s) = strip u s" by simp
  then have "strip u (strip u s) = rstrip u (strip u s)" by (simp add: strip_rstrip)
  also have "\<dots> = strip u s" by (simp add: strip_rstrip rstrip_idem)
  finally show ?thesis .
qed

lemma separators_are_markers:
  "extraction_tables u \<Longrightarrow> \<forall>m\<in>set explanation_separators. is_marker u m"
  by (simp add: extraction_tables_def explanation_separators_def is_marker_def lit_def)

lemma is_markerD:
  assumes "is_marker u m"
  obtains c w where "m = 0x0A # 0x0A # c # w" "0x0A \<notin> set (c # w)"
    "\<not> space_char u (last (c # w))"
  using assms by (auto simp: is_marker_def split: list.splits)

lemma trimmed_strip: "trimmed u (strip u s)"
proof (cases "strip u s")
  case Nil
  then show ?thesis by (simp add: trimmed_def)
next
  case (Cons x xs)
  have "\<not> space_char u (hd (strip u s))" using strip_first_not_space [OF Cons] Cons by simp
  moreover have "\<not> space_char u (last (strip u s))"
  proof -
    have ne: "dropWhile (space_char u) (rev (dropWhile (space_char u) s)) \<noteq> []"
      using Cons by (simp add: strip_def)
    then have "\<not> space_char u (hd (dropWhile (space_char u) (rev (dropWhile (space_char u) s))))"
      by (rule hd_dropWhile)
    then show ?thesis using ne by (simp add: strip_def last_rev)
  qed
  ultimately show ?thesis by (simp add: trimmed_def)
qed

lemma no_overlap:
  assumes m: "is_marker u m" and m': "is_marker u m'"
    and q: "q = h @ m @ t" and q': "q = h' @ m' @ t'"
    and lt: "length h' < length h"
  shows "length h' + length m' \<le> length h"
proof (rule ccontr)
  assume "\<not> length h' + length m' \<le> length h"
  then have over: "length h < length h' + length m'" by simp
  from m obtain c w where mm: "m = 0x0A # 0x0A # c # w" by (rule is_markerD)
  from m' obtain c' w' where mm': "m' = 0x0A # 0x0A # c' # w'"
    and nn: "0x0A \<notin> set (c' # w')" by (rule is_markerD)
  define d where "d = length h - length h'"
  have d: "1 \<le> d" "d < length m'" "length h = length h' + d" using lt over by (simp_all add: d_def)
  have at0: "q ! length h = 0x0A" using q mm by (simp add: nth_append)
  have at1: "q ! Suc (length h) = 0x0A" using q mm by (simp add: nth_append)
  have in_m': "q ! (length h' + i) = m' ! i" if "i < length m'" for i
    using q' that by (simp add: nth_append)
  have "m' ! d = 0x0A" using in_m' [OF d(2)] at0 d(3) by simp
  have "d = 1"
  proof (rule ccontr)
    assume "d \<noteq> 1"
    with d(1) have "2 \<le> d" by simp
    then obtain e where e: "d = Suc (Suc e)" by (metis add_2_eq_Suc le_Suc_ex)
    with d(2) mm' have "m' ! d \<in> set (c' # w')" by (auto simp del: set_simps intro: nth_mem)
    with \<open>m' ! d = 0x0A\<close> nn show False by simp
  qed
  have "2 < length m'" using mm' by simp
  from in_m' [OF this] have "q ! (length h' + 2) = c'" using mm' by simp
  moreover have "length h' + 2 = Suc (length h)" using d(3) \<open>d = 1\<close> by simp
  ultimately have "c' = 0x0A" using at1 by simp
  with nn show False by simp
qed

lemma marker_length: "is_marker u m \<Longrightarrow> 3 \<le> length m"
  by (erule is_markerD) simp

lemma marker_last: "is_marker u m \<Longrightarrow> \<not> space_char u (last m)"
  by (erule is_markerD) (simp del: last.simps add: last_ConsR)

lemma cut_head:
  assumes T: "extraction_tables u" and tq: "trimmed u q" and m: "is_marker u m" and bf: "before_first m q = Some h"
  shows "\<exists>ws. h = strip u h @ ws \<and> (\<forall>x\<in>set ws. space_char u x)"
proof -
  from before_first_decomp [OF bf] obtain t where q: "q = h @ m @ t" by blast
  from m obtain c w where mm: "m = 0x0A # 0x0A # c # w" by (rule is_markerD)
  have "dropWhile (space_char u) h = h"
  proof (cases h)
    case Nil
    with q mm have "q \<noteq> []" "hd q = 0x0A" by simp_all
    with tq newline_is_space [OF T] show ?thesis by (simp add: trimmed_def)
  next
    case (Cons x xs)
    with q have "q \<noteq> []" "hd q = x" by simp_all
    with tq Cons show ?thesis by (simp add: trimmed_def)
  qed
  then have "strip u h = rstrip u h" by (simp add: strip_rstrip)
  with rstrip_decomp [of h] show ?thesis by simp
qed

lemma marker_in_cut:
  assumes T: "extraction_tables u" and tq: "trimmed u q" and m: "is_marker u m" and m': "is_marker u m'"
    and bf: "before_first m q = Some h"
  shows "before_first m' (strip u h) =
           (case before_first m' q of
              Some h' \<Rightarrow> if length h' < length h then Some h' else None
            | None \<Rightarrow> None)"
proof -
  from before_first_decomp [OF bf] obtain t where q: "q = h @ m @ t" by blast
  from cut_head [OF T tq m bf] obtain ws where
    ws: "h = strip u h @ ws" "\<forall>x\<in>set ws. space_char u x" by blast
  have q1: "q = strip u h @ (ws @ m @ t)" using q ws(1) by (metis append_assoc)
  have len1: "length (strip u h) \<le> length h" using ws(1) by (metis length_append le_add1)
  have inside: "\<exists>b'. q = a @ m' @ b'" if "strip u h = a @ m' @ b" for a b
    using q1 that by simp
  show ?thesis
  proof (cases "before_first m' q")
    case None
    have "before_first m' (strip u h) = None"
    proof (rule ccontr)
      assume "before_first m' (strip u h) \<noteq> None"
      then obtain a where "before_first m' (strip u h) = Some a" by auto
      from before_first_decomp [OF this] inside obtain b' where "q = a @ m' @ b'" by blast
      with None show False using before_first_None_iff [of m' q] by blast
    qed
    with None show ?thesis by simp
  next
    case (Some h')
    from before_first_decomp [OF Some] obtain t' where q': "q = h' @ m' @ t'" by blast
    show ?thesis
    proof (cases "length h' < length h")
      case False
      have "before_first m' (strip u h) = None"
      proof (rule ccontr)
        assume "before_first m' (strip u h) \<noteq> None"
        then obtain a where a: "before_first m' (strip u h) = Some a" by auto
        from before_first_decomp [OF a] obtain b where b: "strip u h = a @ m' @ b" by blast
        with inside obtain b' where "q = a @ m' @ b'" by blast
        from before_first_least [OF Some this] have "length h' \<le> length a" .
        moreover have "length a + length m' \<le> length (strip u h)"
          using arg_cong [OF b, of length] by simp
        ultimately show False using len1 False marker_length [OF m'] by simp
      qed
      with Some False show ?thesis by simp
    next
      case True
      from no_overlap [OF m m' q q' True] have fit: "length h' + length m' \<le> length h" .
      have hh: "h = h' @ m' @ drop (length h' + length m') h"
      proof -
        have "take (length h' + length m') q = h' @ m'" using q' by simp
        moreover have "take (length h' + length m') q = take (length h' + length m') h"
          using q fit by simp
        ultimately have "take (length h' + length m') h = h' @ m'" by simp
        then show ?thesis by (metis append_take_drop_id append_assoc)
      qed
      have fit1: "length h' + length m' \<le> length (strip u h)"
      proof (rule ccontr)
        assume "\<not> length h' + length m' \<le> length (strip u h)"
        then have beyond: "length (strip u h) \<le> length h' + length m' - 1"
          "length h' + length m' - 1 < length h"
          using fit marker_length [OF m'] by simp_all
        have "h ! (length h' + length m' - 1) = last m'"
        proof -
          have ne: "m' \<noteq> []" using marker_length [OF m'] by auto
          from hh obtain rest where rest: "h = (h' @ m') @ rest" by (metis append_assoc)
          have k: "length h' + length m' - 1 < length (h' @ m')" using ne by simp
          have "h ! (length h' + length m' - 1) = (h' @ m') ! (length h' + length m' - 1)"
            using k by (subst rest) (simp only: nth_append if_True)
          also have "\<dots> = last (h' @ m')"
          proof -
            have "h' @ m' \<noteq> []" using ne by simp
            from last_conv_nth [OF this] show ?thesis by simp
          qed
          also have "\<dots> = last m'" using ne by simp
          finally show ?thesis .
        qed
        moreover have "h ! (length h' + length m' - 1) \<in> set ws"
        proof -
          have "h ! (length h' + length m' - 1) =
                (strip u h @ ws) ! (length h' + length m' - 1)" using ws(1) by simp
          also have "\<dots> = ws ! (length h' + length m' - 1 - length (strip u h))"
            using beyond(1) by (simp add: nth_append)
          finally show ?thesis
            using beyond arg_cong [OF ws(1), of length] by (simp add: nth_mem)
        qed
        ultimately show False using ws(2) marker_last [OF m'] by auto
      qed
      have sh: "strip u h = h' @ m' @ drop (length h' + length m') (strip u h)"
      proof -
        have "take (length h' + length m') (strip u h) = take (length h' + length m') h"
          using fit1 by (subst (2) ws(1)) simp
        also have "\<dots> = h' @ m'" by (subst hh) simp
        finally show ?thesis by (metis append_take_drop_id append_assoc)
      qed
      have "before_first m' (strip u h) = Some h'"
      proof (rule before_first_SomeI [OF sh])
        fix a b
        assume "strip u h = a @ m' @ b"
        with inside obtain b' where "q = a @ m' @ b'" by blast
        from before_first_least [OF Some this] show "length h' \<le> length a" .
      qed
      with Some True show ?thesis by simp
    qed
  qed
qed

lemma earliest_in_cut:
  assumes T: "extraction_tables u" and tq: "trimmed u q" and m: "is_marker u m"
    and ms: "\<forall>m'\<in>set ms. is_marker u m'"
    and bf: "before_first m q = Some h"
  shows "earliest_marker ms (strip u h) =
           (case earliest_marker ms q of
              Some h' \<Rightarrow> if length h' < length h then Some h' else None
            | None \<Rightarrow> None)"
  using ms
proof (induction ms)
  case Nil
  then show ?case by simp
next
  case (Cons m' ms)
  then have m': "is_marker u m'" and IH: "earliest_marker ms (strip u h) =
           (case earliest_marker ms q of
              Some h' \<Rightarrow> if length h' < length h then Some h' else None
            | None \<Rightarrow> None)" by simp_all
  show ?case
    using marker_in_cut [OF T tq m m' bf] IH
    by (auto split: option.splits)
qed

lemma cut_separators_earliest:
  assumes T: "extraction_tables u"
  shows "\<forall>m\<in>set ms. is_marker u m \<Longrightarrow> trimmed u q \<Longrightarrow>
         cut_separators u ms q =
           (case earliest_marker ms q of None \<Rightarrow> q | Some h \<Rightarrow> strip u h)"
proof (induction ms arbitrary: q)
  case Nil
  then show ?case by simp
next
  case (Cons m ms)
  then have m: "is_marker u m" and ms: "\<forall>m'\<in>set ms. is_marker u m'" by simp_all
  show ?case
  proof (cases "before_first m q")
    case None
    with Cons.IH [OF ms Cons.prems(2)] show ?thesis by simp
  next
    case (Some h)
    have "cut_separators u (m # ms) q = cut_separators u ms (strip u h)" using Some by simp
    also have "\<dots> =
        (case earliest_marker ms (strip u h) of None \<Rightarrow> strip u h | Some h1 \<Rightarrow> strip u h1)"
      by (rule Cons.IH [OF ms trimmed_strip])
    finally show ?thesis
      using earliest_in_cut [OF T Cons.prems(2) m ms Some] Some
      by (auto split: option.splits)
  qed
qed

lemma extraction_tables_ascii: "extraction_tables ascii"
  by (auto simp: extraction_tables_def ascii_def ascii_upper_def explanation_separators_def
        sql_tag_simps lit_def split: if_splits)

text \<open>
  C9, as amended. \<^verbatim>\<open>_extract_sql\<close> is a function of the backend's text alone, and
  for every text it computes this: the body of the first fenced code block of the
  text if it holds one, wherever the block stands and whatever surrounds it (the
  text around the block is dropped), otherwise the raw text; of a language tag
  only \<^verbatim>\<open>sql\<close>, in any case, is taken off, any other tag stays in the body; the
  result is trimmed of leading and trailing whitespace and cut at the first
  explanation marker, a blank line followed by \<^verbatim>\<open>This query\<close>, \<^verbatim>\<open>Explanation\<close>
  or \<^verbatim>\<open>Note:\<close>, only the text before it being kept, and trimmed. The loop of the
  code over the three markers, in a fixed order, cuts at the marker that comes
  first in the text. Whitespace and the matching of the tag's letters are those
  of the runtime; of them the proof uses only what \<open>extraction_tables\<close> says.
\<close>

theorem extract_sql_spec:
  assumes "extraction_tables u"
  shows "extract_sql u response_text = extract_described u response_text"
proof -
  define body where
    "body = (case fenced_body u response_text of Some b \<Rightarrow> b | None \<Rightarrow> response_text)"
  have "(case first_code_block u (strip u response_text) of
           Some g \<Rightarrow> strip u g | None \<Rightarrow> strip u response_text) = strip u body"
    unfolding body_def
    by (cases "fenced_body u response_text")
       (simp_all add: first_code_block_eq [OF assms] fenced_body_strip [OF assms] strip_idem)
  then have "extract_sql u response_text =
             cut_separators u explanation_separators (strip u body)"
    by (simp add: extract_sql_def Let_def strip_idem)
  also have "\<dots> = (case earliest_marker explanation_separators (strip u body) of
                      None \<Rightarrow> strip u body | Some h \<Rightarrow> strip u h)"
    by (rule cut_separators_earliest [OF assms separators_are_markers [OF assms] trimmed_strip])
  also have "\<dots> = extract_described u response_text"
    unfolding extract_described_def Let_def body_def by (rule refl)
  finally show ?thesis .
qed

theorem extract_sql_spec_witness:
  "extraction_tables ascii \<and>
   extract_sql ascii
     (lit ''Here you go: '' @ fence @
      lit ''SQL\<newline>SELECT name FROM t\<newline>\<newline>Note: all rows\<newline>'' @ fence) =
     extract_described ascii
       (lit ''Here you go: '' @ fence @
        lit ''SQL\<newline>SELECT name FROM t\<newline>\<newline>Note: all rows\<newline>'' @ fence) \<and>
   extract_described ascii
     (lit ''Here you go: '' @ fence @
      lit ''SQL\<newline>SELECT name FROM t\<newline>\<newline>Note: all rows\<newline>'' @ fence) =
     lit ''SELECT name FROM t''"
proof -
  have h0: "extraction_tables ascii"
    by (auto simp: extraction_tables_def ascii_def ascii_upper_def explanation_separators_def
          sql_tag_def lit_def split: if_splits)
  have "extract_described ascii
     (lit ''Here you go: '' @ fence @
      lit ''SQL\<newline>SELECT name FROM t\<newline>\<newline>Note: all rows\<newline>'' @ fence) =
     lit ''SELECT name FROM t''"
    by code_simp
  with h0 extract_sql_spec [OF h0, of "lit ''Here you go: '' @ fence @
      lit ''SQL\<newline>SELECT name FROM t\<newline>\<newline>Note: all rows\<newline>'' @ fence"]
  show ?thesis by simp
qed

text \<open>
  The claim as stated, an enclosing block stripped and any language tag
  tolerated, fails on two texts. A block tagged \<^verbatim>\<open>tsql\<close> keeps its tag: the query
  extracted starts with \<^verbatim>\<open>tsql\<close>. And a text that holds a fenced block without
  being enclosed by one is not taken raw: of
  \<^verbatim>\<open>SELECT 1 -- see\<close> followed by a fenced \<^verbatim>\<open>x\<close> and \<^verbatim>\<open>for details\<close>, only \<^verbatim>\<open>x\<close> is
  kept.
\<close>

theorem extract_sql_spec_counterexample:
  "extract_sql ascii (fence @ lit ''tsql\<newline>SELECT 1\<newline>'' @ fence) =
     lit ''tsql\<newline>SELECT 1'' \<and>
   extract_sql ascii (fence @ lit ''tsql\<newline>SELECT 1\<newline>'' @ fence) \<noteq> lit ''SELECT 1'' \<and>
   extract_sql ascii (lit ''SELECT 1 -- see '' @ fence @ lit ''x'' @ fence @ lit '' for details'') =
     lit ''x'' \<and>
   extract_sql ascii (lit ''SELECT 1 -- see '' @ fence @ lit ''x'' @ fence @ lit '' for details'') \<noteq>
     lit ''SELECT 1 -- see '' @ fence @ lit ''x'' @ fence @ lit '' for details''"
  by code_simp

end
